theory Spec2Isabelle
  imports Complex_Main "HOL-Library.Sublist" "HOL-Library.Multiset"
begin

section \<open>Indoor navigation engine: room index, graph builder, path search, directions\<close>

text \<open>
  The development embeds \<^verbatim>\<open>src/utils/pathfinding.js\<close> and the directions generator
  (\<^verbatim>\<open>calculateDistance\<close> .. \<^verbatim>\<open>calculateRouteStats\<close>) of the repository.

  Conventions of the embedding.
  \<^item> JavaScript numbers are modelled as ideal real numbers (\<^typ>\<open>real\<close>); rounding of
    IEEE doubles is not modelled. Concrete inputs below are chosen so that the source computes
    on them without rounding wherever a comparison decides the outcome.
  \<^item> Floor indices are integers (\<^typ>\<open>int\<close>); room names are ASCII strings.
  \<^item> A coordinate array \<^verbatim>\<open>[lon, lat]\<close> or \<^verbatim>\<open>[lon, lat, z]\<close> is a pair: the source
    only ever reads index 0 and index 1.
  \<^item> An implicit \<^verbatim>\<open>TypeError\<close> of the source (reading a property of \<^verbatim>\<open>undefined\<close>) is the
    value \<open>Inl TypeError\<close>.
  \<^item> A JavaScript \<^verbatim>\<open>Map\<close> is an association list in insertion order with distinct keys.
\<close>

subsection \<open>Data model\<close>

type_synonym point = "real \<times> real"

datatype geometry =
    Polygon "point list list"
  | MultiPolygon "point list list list"
  | LineString "point list"
  | OtherGeometry
  | NullGeometry

record feature =
  p_name :: "string option"
  p_id :: "string option"
  p_room_id :: "string option"
  p_floor :: "int option"
  p_nivel :: "int option"
  p_level :: "int option"
  geometry :: geometry

datatype error = TypeError

record room =
  r_name :: string
  r_floor :: int
  r_features :: "feature list"
  r_centroid :: point

subsection \<open>Strings\<close>

definition lowerChar :: "char \<Rightarrow> char" where
  "lowerChar c =
     (let n = (of_char c :: nat) in if 65 \<le> n \<and> n \<le> 90 then char_of (n + 32) else c)"

definition toLowerCase :: "string \<Rightarrow> string" where
  "toLowerCase s = map lowerChar s"

fun strIncludes :: "string \<Rightarrow> string \<Rightarrow> bool" where
  "strIncludes [] sub = (sub = [])"
| "strIncludes (c # cs) sub = (prefix sub (c # cs) \<or> strIncludes cs sub)"

definition digitChar :: "nat \<Rightarrow> char" where
  "digitChar d = ''0123456789'' ! d"

fun digitsOfNat :: "nat \<Rightarrow> string" where
  "digitsOfNat n =
     (if n < 10 then [digitChar n]
      else digitsOfNat (n div 10) @ [digitChar (n mod 10)])"

declare digitsOfNat.simps [simp del]

definition showInt :: "int \<Rightarrow> string" where
  "showInt i = (if i < 0 then CHR ''-'' # digitsOfNat (nat (- i)) else digitsOfNat (nat i))"

text \<open>The template literal \<^verbatim>\<open>`${name}_F${floor}`\<close>.\<close>

definition roomKey :: "string \<Rightarrow> int \<Rightarrow> string" where
  "roomKey name flr = name @ ''_F'' @ showInt flr"

subsection \<open>Geometry helpers\<close>

text \<open>\<^verbatim>\<open>distance\<close>: Euclidean distance between two points.\<close>

definition distance :: "point \<Rightarrow> point \<Rightarrow> real" where
  "distance p1 p2 =
     (let dx = fst p1 - fst p2; dy = snd p1 - snd p2 in sqrt (dx * dx + dy * dy))"

text \<open>
  The coordinate list that \<^verbatim>\<open>getCentroid\<close>, \<^verbatim>\<open>getRoomBoundaryPoints\<close> and
  \<^verbatim>\<open>getCorridorPathPoints\<close> select from a geometry: \<^verbatim>\<open>coordinates[0]\<close> of a Polygon,
  \<^verbatim>\<open>coordinates[0][0]\<close> of a MultiPolygon, \<^verbatim>\<open>coordinates\<close> of a LineString, and the empty
  list for any other geometry type. Indexing an empty array gives \<^verbatim>\<open>undefined\<close>, and the
  next read of it (\<^verbatim>\<open>.length\<close>, \<^verbatim>\<open>[0]\<close>, or the spread) raises \<^verbatim>\<open>TypeError\<close>; so does
  \<^verbatim>\<open>geometry.type\<close> when the feature's \<^verbatim>\<open>geometry\<close> member is \<^verbatim>\<open>null\<close> (\<open>NullGeometry\<close>).
\<close>

fun outerRing :: "geometry \<Rightarrow> error + point list" where
  "outerRing (Polygon []) = Inl TypeError"
| "outerRing (Polygon (ring # _)) = Inr ring"
| "outerRing (MultiPolygon []) = Inl TypeError"
| "outerRing (MultiPolygon ([] # _)) = Inl TypeError"
| "outerRing (MultiPolygon ((ring # _) # _)) = Inr ring"
| "outerRing (LineString cs) = Inr cs"
| "outerRing OtherGeometry = Inr []"
| "outerRing NullGeometry = Inl TypeError"

text \<open>\<^verbatim>\<open>getCentroid\<close>: the \<^verbatim>\<open>reduce\<close> over the ring is a left fold from \<^verbatim>\<open>[0, 0]\<close>.\<close>

definition addCoord :: "point \<Rightarrow> point \<Rightarrow> point" where
  "addCoord acc coord = (fst acc + fst coord, snd acc + snd coord)"

definition centroidOfCoords :: "point list \<Rightarrow> point" where
  "centroidOfCoords coords =
     (if length coords = 0 then (0, 0)
      else (let s = foldl addCoord (0, 0) coords
            in (fst s / real (length coords), snd s / real (length coords))))"

definition getCentroid :: "feature \<Rightarrow> error + point" where
  "getCentroid f =
     (case outerRing (geometry f) of
        Inl e \<Rightarrow> Inl e
      | Inr coords \<Rightarrow> Inr (centroidOfCoords coords))"

subsection \<open>Property readers\<close>

text \<open>
  \<^verbatim>\<open>a || b\<close> yields \<open>a\<close> when \<open>a\<close> is truthy. A missing property is \<^verbatim>\<open>undefined\<close>
  (here \<open>None\<close>); the falsy number is \<open>0\<close> and the falsy string is the empty one.
\<close>

definition truthyNum :: "int \<Rightarrow> bool" where
  "truthyNum v = (v \<noteq> 0)"

definition truthyStr :: "string \<Rightarrow> bool" where
  "truthyStr s = (s \<noteq> [])"

definition jsOr :: "('a \<Rightarrow> bool) \<Rightarrow> 'a option \<Rightarrow> 'a \<Rightarrow> 'a" where
  "jsOr truthy a b = (case a of Some v \<Rightarrow> if truthy v then v else b | None \<Rightarrow> b)"

text \<open>\<^verbatim>\<open>getRoomFloor\<close>: \<^verbatim>\<open>floor || nivel || level || 0\<close>.\<close>

definition getRoomFloor :: "feature \<Rightarrow> int" where
  "getRoomFloor f =
     jsOr truthyNum (p_floor f) (jsOr truthyNum (p_nivel f) (jsOr truthyNum (p_level f) 0))"

text \<open>\<^verbatim>\<open>getRoomName\<close>: \<^verbatim>\<open>name || id || room_id || ""\<close>.\<close>

definition getRoomName :: "feature \<Rightarrow> string" where
  "getRoomName f =
     jsOr truthyStr (p_name f) (jsOr truthyStr (p_id f) (jsOr truthyStr (p_room_id f) []))"

subsection \<open>Name classification\<close>

definition isVerticalConnector :: "string \<Rightarrow> bool" where
  "isVerticalConnector roomName =
     (let name = toLowerCase roomName in
        strIncludes name ''stair'' \<or> strIncludes name ''escada'' \<or> strIncludes name ''elevador'' \<or>
        strIncludes name ''elevator'' \<or> strIncludes name ''corredor'' \<or> strIncludes name ''corridor'' \<or>
        strIncludes name ''hallway'' \<or> strIncludes name ''lobby'')"

definition isCorridor :: "string \<Rightarrow> bool" where
  "isCorridor roomName =
     (let name = toLowerCase roomName in
        strIncludes name ''hall'' \<or> strIncludes name ''corridor'' \<or> strIncludes name ''corredor'' \<or>
        strIncludes name ''hallway'' \<or> strIncludes name ''lobby'' \<or> strIncludes name ''passage'' \<or>
        strIncludes name ''passagem'')"

definition isNavigableRoom :: "string \<Rightarrow> bool" where
  "isNavigableRoom roomName =
     (let name = toLowerCase roomName in
        if name = ''floor'' \<or> name = ''structure'' \<or> name = ''void'' \<or> name = ''exterior''
        then False else True)"

subsection \<open>Room index: \<^verbatim>\<open>groupRoomsByName\<close>\<close>

text \<open>
  The first loop fills a \<^verbatim>\<open>Map\<close> from key to group; a group is created with an empty feature
  list on the first feature of its key and every feature is pushed onto the group of its key.
  The \<^verbatim>\<open>centroid: null\<close> slot of a fresh group is not read before the second loop
  overwrites it, so the first loop is modelled on triples (name, floor, features).
\<close>

type_synonym pregroup = "string \<times> int \<times> feature list"

definition mapHas :: "('k \<times> 'v) list \<Rightarrow> 'k \<Rightarrow> bool" where
  "mapHas m k = (k \<in> fst ` set m)"

fun mapUpd :: "('k \<times> 'v) list \<Rightarrow> 'k \<Rightarrow> ('v \<Rightarrow> 'v) \<Rightarrow> ('k \<times> 'v) list" where
  "mapUpd [] k g = []"
| "mapUpd ((k', v) # m) k g = (if k' = k then (k', g v) # m else (k', v) # mapUpd m k g)"

text \<open>\<^verbatim>\<open>Map.prototype.set\<close>: an existing key keeps its position, a new key goes last.\<close>

definition mapSet :: "('k \<times> 'v) list \<Rightarrow> 'k \<Rightarrow> 'v \<Rightarrow> ('k \<times> 'v) list" where
  "mapSet m k v = (if mapHas m k then mapUpd m k (\<lambda>_. v) else m @ [(k, v)])"

definition pushFeature :: "feature \<Rightarrow> pregroup \<Rightarrow> pregroup" where
  "pushFeature f g = (case g of (name, flr, fs) \<Rightarrow> (name, flr, fs @ [f]))"

definition groupStep :: "(string \<times> pregroup) list \<Rightarrow> feature \<Rightarrow> (string \<times> pregroup) list" where
  "groupStep roomGroups f =
     (let name = getRoomName f;
          flr = getRoomFloor f;
          key = roomKey name flr;
          roomGroups' = (if \<not> mapHas roomGroups key
                         then mapSet roomGroups key (name, flr, [])
                         else roomGroups)
      in mapUpd roomGroups' key (pushFeature f))"

definition groupFeatures :: "feature list \<Rightarrow> (string \<times> pregroup) list" where
  "groupFeatures features = foldl groupStep [] features"

text \<open>
  The second loop: the centroid of a group is the average of the centroids of its member
  features (\<^verbatim>\<open>centroids.reduce(...) / centroids.length\<close> per coordinate). The first
  \<^verbatim>\<open>TypeError\<close> of \<^verbatim>\<open>getCentroid\<close> aborts the whole call.
\<close>

fun mapM :: "('a \<Rightarrow> error + 'b) \<Rightarrow> 'a list \<Rightarrow> error + 'b list" where
  "mapM g [] = Inr []"
| "mapM g (x # xs) =
     (case g x of
        Inl e \<Rightarrow> Inl e
      | Inr y \<Rightarrow> (case mapM g xs of Inl e \<Rightarrow> Inl e | Inr ys \<Rightarrow> Inr (y # ys)))"

definition avgCentroid :: "point list \<Rightarrow> point" where
  "avgCentroid centroids =
     (foldl (\<lambda>sum c. sum + fst c) 0 centroids / real (length centroids),
      foldl (\<lambda>sum c. sum + snd c) 0 centroids / real (length centroids))"

definition finishGroup :: "string \<times> pregroup \<Rightarrow> error + (string \<times> room)" where
  "finishGroup kg =
     (case kg of (key, name, flr, fs) \<Rightarrow>
        (case mapM getCentroid fs of
           Inl e \<Rightarrow> Inl e
         | Inr centroids \<Rightarrow>
             Inr (key, \<lparr>r_name = name, r_floor = flr, r_features = fs,
                        r_centroid = avgCentroid centroids\<rparr>)))"

definition groupRoomsByName :: "feature list \<Rightarrow> error + (string \<times> room) list" where
  "groupRoomsByName features = mapM finishGroup (groupFeatures features)"

text \<open>The key under which \<^verbatim>\<open>groupRoomsByName\<close> files a feature.\<close>

definition featureKey :: "feature \<Rightarrow> string" where
  "featureKey f = roomKey (getRoomName f) (getRoomFloor f)"

subsection \<open>Graph builder: \<^verbatim>\<open>buildRoomGraph\<close>\<close>

record neighbor =
  n_key :: string
  n_name :: string
  n_floor :: int
  n_distance :: real
  n_isCorridor :: bool

record node =
  nd_room :: room
  nd_neighbors :: "neighbor list"
  nd_centroid :: point
  nd_isCorridor :: bool

text \<open>
  The body of the inner \<^verbatim>\<open>filteredRooms.forEach((otherRoom) => ...)\<close>: for one pair it pushes
  at most one neighbour. \<open>None\<close> stands for an iteration that pushes nothing.
\<close>

definition neighborOf :: "room \<Rightarrow> room \<Rightarrow> neighbor option" where
  "neighborOf room otherRoom =
     (let isRoomCorridor = isCorridor (r_name room) in
      if r_name room = r_name otherRoom \<and> r_floor room = r_floor otherRoom then None
      else if r_floor room = r_floor otherRoom then
        (let dist = distance (r_centroid room) (r_centroid otherRoom);
             isOtherCorridor = isCorridor (r_name otherRoom);
             (threshold, distanceWeight) =
               (if isRoomCorridor \<and> isOtherCorridor then (5 / 100, dist * (8 / 10))
                else if isRoomCorridor \<or> isOtherCorridor then (3 / 100, dist * (9 / 10))
                else (15 / 1000, dist * (12 / 10)))
         in if dist < threshold \<and> dist > 0
            then Some \<lparr>n_key = roomKey (r_name otherRoom) (r_floor otherRoom),
                       n_name = r_name otherRoom, n_floor = r_floor otherRoom,
                       n_distance = distanceWeight, n_isCorridor = isOtherCorridor\<rparr>
            else None)
      else if \<bar>r_floor room - r_floor otherRoom\<bar> = 1 then
        (if isVerticalConnector (r_name room) \<or> isVerticalConnector (r_name otherRoom) then
           (let dist = distance (r_centroid room) (r_centroid otherRoom);
                threshold = 2 / 100
            in if dist < threshold \<and> dist > 0
               then Some \<lparr>n_key = roomKey (r_name otherRoom) (r_floor otherRoom),
                          n_name = r_name otherRoom, n_floor = r_floor otherRoom,
                          n_distance = dist * 2, n_isCorridor = isCorridor (r_name otherRoom)\<rparr>
               else None)
         else None)
      else None)"

text \<open>
  \<^verbatim>\<open>filteredRooms\<close>: the rooms of the map in insertion order, restricted to
  \<^verbatim>\<open>targetFloor\<close> when it is not \<^verbatim>\<open>null\<close>, then to navigable names.
\<close>

definition filteredRooms :: "(string \<times> room) list \<Rightarrow> int option \<Rightarrow> room list" where
  "filteredRooms roomGroups targetFloor =
     (let rooms = map snd roomGroups;
          onFloor = (case targetFloor of
                       Some t \<Rightarrow> filter (\<lambda>r. r_floor r = t) rooms
                     | None \<Rightarrow> rooms)
      in filter (\<lambda>r. isNavigableRoom (r_name r)) onFloor)"

definition graphNode :: "room list \<Rightarrow> room \<Rightarrow> node" where
  "graphNode rooms room =
     \<lparr>nd_room = room,
      nd_neighbors = List.map_filter (neighborOf room) rooms,
      nd_centroid = r_centroid room,
      nd_isCorridor = isCorridor (r_name room)\<rparr>"

definition buildRoomGraph :: "(string \<times> room) list \<Rightarrow> int option \<Rightarrow> (string \<times> node) list" where
  "buildRoomGraph roomGroups targetFloor =
     (let rooms = filteredRooms roomGroups targetFloor
      in foldl (\<lambda>graph room.
                  mapSet graph (roomKey (r_name room) (r_floor room)) (graphNode rooms room))
           [] rooms)"

subsection \<open>Route points\<close>

text \<open>
  One step of a resolved path. \<^verbatim>\<open>findRoute\<close> creates room points with an \<^verbatim>\<open>isCorridor\<close>
  field and no \<^verbatim>\<open>isWaypoint\<close> field; \<^verbatim>\<open>addCorridorWaypoints\<close> creates points with
  \<^verbatim>\<open>isWaypoint: true\<close> and no \<^verbatim>\<open>isCorridor\<close> field. An absent field is \<open>None\<close>.
\<close>

record routepoint =
  rp_coords :: point
  rp_floor :: int
  rp_name :: string
  rp_features :: "feature list"
  rp_isCorridor :: "bool option"
  rp_isWaypoint :: "bool option"

subsection \<open>Directions generator: distances, bearings and turns\<close>

text \<open>
  \<^verbatim>\<open>Math.atan2(y, x)\<close> on real numbers (there is no signed zero: \<open>atan2 0 x\<close> for negative
  \<open>x\<close> is \<open>pi\<close>, the value at \<open>+0\<close>).
\<close>

definition atan2 :: "real \<Rightarrow> real \<Rightarrow> real" where
  "atan2 y x =
     (if 0 < x then arctan (y / x)
      else if x < 0 then (if 0 \<le> y then arctan (y / x) + pi else arctan (y / x) - pi)
      else if 0 < y then pi / 2
      else if y < 0 then - (pi / 2)
      else 0)"

text \<open>The remainder \<^verbatim>\<open>a % b\<close> of JavaScript: the quotient is truncated towards zero.\<close>

definition jsRem :: "real \<Rightarrow> real \<Rightarrow> real" where
  "jsRem a b = a - b * of_int (if 0 \<le> a / b then \<lfloor>a / b\<rfloor> else \<lceil>a / b\<rceil>)"

text \<open>\<^verbatim>\<open>calculateDistance\<close>: the haversine formula with Earth radius 6371000 m.\<close>

definition calculateDistance :: "point \<Rightarrow> point \<Rightarrow> real" where
  "calculateDistance coord1 coord2 =
     (let lon1 = fst coord1; lat1 = snd coord1;
          lon2 = fst coord2; lat2 = snd coord2;
          R = 6371000;
          phi1 = (lat1 * pi) / 180;
          phi2 = (lat2 * pi) / 180;
          dphi = ((lat2 - lat1) * pi) / 180;
          dlam = ((lon2 - lon1) * pi) / 180;
          a = sin (dphi / 2) * sin (dphi / 2) + cos phi1 * cos phi2 * sin (dlam / 2) * sin (dlam / 2);
          c = 2 * atan2 (sqrt a) (sqrt (1 - a))
      in R * c)"

definition calculateBearing :: "point \<Rightarrow> point \<Rightarrow> real" where
  "calculateBearing coord1 coord2 =
     (let lon1 = fst coord1; lat1 = snd coord1;
          lon2 = fst coord2; lat2 = snd coord2;
          phi1 = (lat1 * pi) / 180;
          phi2 = (lat2 * pi) / 180;
          dlam = ((lon2 - lon1) * pi) / 180;
          y = sin dlam * cos phi2;
          x = cos phi1 * sin phi2 - sin phi1 * cos phi2 * cos dlam;
          bearing = (atan2 y x * 180) / pi
      in jsRem (bearing + 360) 360)"

definition bearingToDirection :: "real \<Rightarrow> string" where
  "bearingToDirection bearing =
     (if bearing \<ge> 337.5 \<or> bearing < 22.5 then ''north''
      else if bearing \<ge> 22.5 \<and> bearing < 67.5 then ''northeast''
      else if bearing \<ge> 67.5 \<and> bearing < 112.5 then ''east''
      else if bearing \<ge> 112.5 \<and> bearing < 157.5 then ''southeast''
      else if bearing \<ge> 157.5 \<and> bearing < 202.5 then ''south''
      else if bearing \<ge> 202.5 \<and> bearing < 247.5 then ''southwest''
      else if bearing \<ge> 247.5 \<and> bearing < 292.5 then ''west''
      else if bearing \<ge> 292.5 \<and> bearing < 337.5 then ''northwest''
      else ''north'')"

text \<open>The two normalisation loops of \<^verbatim>\<open>calculateTurn\<close>.\<close>

function normDown :: "real \<Rightarrow> real" where
  "normDown d = (if d > 180 then normDown (d - 360) else d)"
  by pat_completeness auto
termination
proof (relation "measure (\<lambda>d. nat \<lceil>d\<rceil>)")
  show "wf (measure (\<lambda>d. nat \<lceil>d\<rceil>))" by simp
next
  fix d :: real
  assume "180 < d"
  then have "\<lceil>d - 360\<rceil> < \<lceil>d\<rceil>" "0 < \<lceil>d\<rceil>" by linarith+
  then show "(d - 360, d) \<in> measure (\<lambda>d. nat \<lceil>d\<rceil>)" by simp
qed

function normUp :: "real \<Rightarrow> real" where
  "normUp d = (if d < - 180 then normUp (d + 360) else d)"
  by pat_completeness auto
termination
proof (relation "measure (\<lambda>d. nat \<lceil>- d\<rceil>)")
  show "wf (measure (\<lambda>d. nat \<lceil>- d\<rceil>))" by simp
next
  fix d :: real
  assume "d < - 180"
  then have "\<lceil>- (d + 360)\<rceil> < \<lceil>- d\<rceil>" "0 < \<lceil>- d\<rceil>" by linarith+
  then show "(d + 360, d) \<in> measure (\<lambda>d. nat \<lceil>- d\<rceil>)" by simp
qed

declare normDown.simps [simp del] normUp.simps [simp del]

definition calculateTurn :: "real \<Rightarrow> real \<Rightarrow> string" where
  "calculateTurn bearing1 bearing2 =
     (let diff = normUp (normDown (bearing2 - bearing1));
          absDiff = \<bar>diff\<bar>
      in if absDiff < 20 then ''straight''
         else if absDiff < 60 then (if diff > 0 then ''slight right'' else ''slight left'')
         else if absDiff < 120 then (if diff > 0 then ''right'' else ''left'')
         else if absDiff < 160 then (if diff > 0 then ''sharp right'' else ''sharp left'')
         else ''back'')"

definition isStairwell :: "string \<Rightarrow> bool" where
  "isStairwell name = (let lower = toLowerCase name in
     strIncludes lower ''stair'' \<or> strIncludes lower ''escada'')"

definition isElevator :: "string \<Rightarrow> bool" where
  "isElevator name = (let lower = toLowerCase name in
     strIncludes lower ''elevator'' \<or> strIncludes lower ''elevador'' \<or> strIncludes lower ''lift'')"

text \<open>The directions module has its own \<^verbatim>\<open>isCorridor\<close>.\<close>

definition isCorridorDir :: "string \<Rightarrow> bool" where
  "isCorridorDir name = (let lower = toLowerCase name in
     strIncludes lower ''corridor'' \<or> strIncludes lower ''corredor'' \<or> strIncludes lower ''hallway'' \<or>
     strIncludes lower ''hall'' \<or> strIncludes lower ''lobby'' \<or> strIncludes lower ''passage'')"

subsection \<open>Directions generator: \<^verbatim>\<open>generateDirections\<close>\<close>

datatype dirType = Start | Turn | FloorChange | Waypoint | Destination

datatype icon = IconElevator | IconLadder | IconLeft | IconRight | IconUp | IconPin | IconTarget

record direction =
  d_id :: nat
  d_type :: dirType
  d_instruction :: string
  d_floor :: int
  d_targetFloor :: "int option"
  d_distance :: real
  d_cumulativeDistance :: real
  d_location :: string
  d_coords :: point
  d_turn :: "string option"
  d_icon :: "icon option"

text \<open>The mutable locals of the loop of \<^verbatim>\<open>generateDirections\<close>.\<close>

record dirState =
  directions :: "direction list"
  cumulativeDistance :: real
  previousBearing :: "real option"
  segmentDistance :: real

definition startDirection :: "routepoint \<Rightarrow> direction" where
  "startDirection p =
     \<lparr>d_id = 0, d_type = Start, d_instruction = ''Start at '' @ rp_name p, d_floor = rp_floor p,
      d_targetFloor = None, d_distance = 0, d_cumulativeDistance = 0, d_location = rp_name p,
      d_coords = rp_coords p, d_turn = None, d_icon = None\<rparr>"

definition floorChangeDirection :: "dirState \<Rightarrow> routepoint \<Rightarrow> routepoint \<Rightarrow> direction" where
  "floorChangeDirection st previous current =
     (let floorDiff = rp_floor current - rp_floor previous;
          floorChangeType = (if isStairwell (rp_name previous) then ''stairs''
                             else if isElevator (rp_name previous) then ''elevator''
                             else ''stairs/elevator'');
          dir = (if floorDiff > 0 then ''up'' else ''down'');
          floorText = ''Floor '' @ showInt (rp_floor current)
      in \<lparr>d_id = length (directions st), d_type = FloorChange,
          d_instruction = ''Take '' @ floorChangeType @ '' '' @ dir @ '' to '' @ floorText,
          d_floor = rp_floor previous, d_targetFloor = Some (rp_floor current),
          d_distance = segmentDistance st, d_cumulativeDistance = cumulativeDistance st,
          d_location = rp_name previous, d_coords = rp_coords previous, d_turn = None,
          d_icon = Some (if floorChangeType = ''elevator'' then IconElevator else IconLadder)\<rparr>)"

definition turnDirection :: "dirState \<Rightarrow> routepoint \<Rightarrow> string \<Rightarrow> direction" where
  "turnDirection st current turn =
     (let turnInstruction = (if turn = ''back'' then ''Turn around''
                             else if strIncludes turn ''slight'' then ''Continue '' @ turn
                             else ''Turn '' @ turn);
          locationContext = (if isCorridorDir (rp_name current) then [] else '' at '' @ rp_name current)
      in \<lparr>d_id = length (directions st), d_type = Turn,
          d_instruction = turnInstruction @ locationContext,
          d_floor = rp_floor current, d_targetFloor = None,
          d_distance = segmentDistance st, d_cumulativeDistance = cumulativeDistance st,
          d_location = rp_name current, d_coords = rp_coords current, d_turn = Some turn,
          d_icon = Some (if strIncludes turn ''left'' then IconLeft
                         else if strIncludes turn ''right'' then IconRight else IconUp)\<rparr>)"

definition waypointDirection :: "dirState \<Rightarrow> routepoint \<Rightarrow> direction" where
  "waypointDirection st current =
     \<lparr>d_id = length (directions st), d_type = Waypoint,
      d_instruction = ''Pass through '' @ rp_name current,
      d_floor = rp_floor current, d_targetFloor = None,
      d_distance = segmentDistance st, d_cumulativeDistance = cumulativeDistance st,
      d_location = rp_name current, d_coords = rp_coords current, d_turn = None,
      d_icon = Some IconPin\<rparr>"

definition destinationDirection :: "dirState \<Rightarrow> routepoint \<Rightarrow> direction" where
  "destinationDirection st lastPoint =
     \<lparr>d_id = length (directions st), d_type = Destination,
      d_instruction = ''Arrive at '' @ rp_name lastPoint,
      d_floor = rp_floor lastPoint, d_targetFloor = None,
      d_distance = segmentDistance st, d_cumulativeDistance = cumulativeDistance st,
      d_location = rp_name lastPoint, d_coords = rp_coords lastPoint, d_turn = None,
      d_icon = Some IconTarget\<rparr>"

text \<open>
  The three stages of one iteration \<open>i\<close> that is not a floor change: the turn check, the
  pass-through check, and the update of \<^verbatim>\<open>previousBearing\<close>. (\<^verbatim>\<open>nextBearing\<close> is computed by
  the source and never used.)
\<close>

definition turnCheck :: "dirState \<Rightarrow> routepoint \<Rightarrow> real \<Rightarrow> dirState" where
  "turnCheck st current currentBearing =
     (case previousBearing st of
        None \<Rightarrow> st
      | Some pb \<Rightarrow>
          (let turn = calculateTurn pb currentBearing in
           if turn \<noteq> ''straight'' \<and> segmentDistance st > 3
           then st\<lparr>directions := directions st @ [turnDirection st current turn],
                   segmentDistance := 0\<rparr>
           else st))"

definition waypointCheck :: "routepoint list \<Rightarrow> nat \<Rightarrow> dirState \<Rightarrow> routepoint \<Rightarrow> dirState" where
  "waypointCheck routePath i st current =
     (if \<not> isCorridorDir (rp_name current) \<and> i + 1 < length routePath
      then (if i + 2 < length routePath \<and> segmentDistance st > 5
            then st\<lparr>directions := directions st @ [waypointDirection st current],
                    segmentDistance := 0\<rparr>
            else st)
      else st)"

definition dirStep :: "routepoint list \<Rightarrow> dirState \<Rightarrow> nat \<Rightarrow> dirState" where
  "dirStep routePath st0 i =
     (let current = routePath ! i;
          previous = routePath ! (i - 1);
          distanceToNext = calculateDistance (rp_coords previous) (rp_coords current);
          st = st0\<lparr>segmentDistance := segmentDistance st0 + distanceToNext,
                   cumulativeDistance := cumulativeDistance st0 + distanceToNext\<rparr>
      in if rp_floor current \<noteq> rp_floor previous
         then st\<lparr>directions := directions st @ [floorChangeDirection st previous current],
                 segmentDistance := 0, previousBearing := None\<rparr>
         else (let currentBearing = calculateBearing (rp_coords previous) (rp_coords current);
                   st1 = turnCheck st current currentBearing;
                   st2 = waypointCheck routePath i st1 current
               in st2\<lparr>previousBearing := Some currentBearing\<rparr>))"

text \<open>
  \<^verbatim>\<open>generateDirections\<close>; the loop runs over \<open>i = 1, ..., length - 1\<close>, so every index read
  (\<open>i - 1\<close>, \<open>i\<close>) is in range. The tests \<^verbatim>\<open>i < routePath.length - 1\<close> and
  \<^verbatim>\<open>i < routePath.length - 2\<close> are written \<open>i + 1 < length\<close> and \<open>i + 2 < length\<close>, which
  is the same on integers and avoids the truncated subtraction of natural numbers.
\<close>

definition dirInit :: "routepoint list \<Rightarrow> dirState" where
  "dirInit routePath =
     \<lparr>directions = [startDirection (routePath ! 0)], cumulativeDistance = 0,
      previousBearing = None, segmentDistance = 0\<rparr>"

definition generateDirections :: "routepoint list \<Rightarrow> direction list" where
  "generateDirections routePath =
     (if length routePath < 2 then []
      else (let st = foldl (dirStep routePath) (dirInit routePath) [1..<length routePath];
                lastPoint = routePath ! (length routePath - 1)
            in directions st @ [destinationDirection st lastPoint]))"

subsection \<open>Directions generator: \<^verbatim>\<open>calculateRouteStats\<close>\<close>

record routeStats =
  totalDistance :: real
  estimatedTime :: real
  floors :: "int list"
  floorChanges :: nat

text \<open>\<^verbatim>\<open>Set.prototype.add\<close> on an insertion-ordered set.\<close>

definition setAdd :: "'a list \<Rightarrow> 'a \<Rightarrow> 'a list" where
  "setAdd xs x = (if x \<in> set xs then xs else xs @ [x])"

record statsState =
  ss_totalDistance :: real
  ss_floorsSet :: "int list"
  ss_floorChanges :: nat

definition statsStep :: "routepoint list \<Rightarrow> statsState \<Rightarrow> nat \<Rightarrow> statsState" where
  "statsStep routePath st i =
     (let current = routePath ! i;
          previous = routePath ! (i - 1)
      in \<lparr>ss_totalDistance = ss_totalDistance st +
             calculateDistance (rp_coords previous) (rp_coords current),
          ss_floorsSet = setAdd (ss_floorsSet st) (rp_floor current),
          ss_floorChanges = (if rp_floor current \<noteq> rp_floor previous
                             then ss_floorChanges st + 1 else ss_floorChanges st)\<rparr>)"

definition calculateRouteStats :: "routepoint list \<Rightarrow> routeStats" where
  "calculateRouteStats routePath =
     (if length routePath < 2
      then \<lparr>totalDistance = 0, estimatedTime = 0, floors = [], floorChanges = 0\<rparr>
      else (let st = foldl (statsStep routePath)
                       \<lparr>ss_totalDistance = 0, ss_floorsSet = [], ss_floorChanges = 0\<rparr>
                       [1..<length routePath];
                floorsSet = setAdd (ss_floorsSet st) (rp_floor (routePath ! 0));
                estimatedTime = ss_totalDistance st / 1.4 + real (ss_floorChanges st) * 30
            in \<lparr>totalDistance = ss_totalDistance st, estimatedTime = estimatedTime,
                floors = sort floorsSet, floorChanges = ss_floorChanges st\<rparr>))"

subsection \<open>Path search: \<^verbatim>\<open>aStar\<close>\<close>

text \<open>
  The mutable locals of \<^verbatim>\<open>aStar\<close>. The two \<^verbatim>\<open>Set\<close>s are lists in insertion order (the order
  in which \<^verbatim>\<open>openSet.forEach\<close> visits the keys decides ties); of the three \<^verbatim>\<open>Map\<close>s only
  \<^verbatim>\<open>has\<close>, \<^verbatim>\<open>get\<close> and \<^verbatim>\<open>set\<close> are used, so they are maps. \<^verbatim>\<open>Infinity\<close> is \<open>None\<close>.
\<close>

record astar =
  openSet :: "string list"
  closedSet :: "string list"
  cameFrom :: "string \<rightharpoonup> string"
  gScore :: "string \<rightharpoonup> real"
  fScore :: "string \<rightharpoonup> real"

text \<open>\<^verbatim>\<open>fScore.get(key) || Infinity\<close>: a missing score and the score \<open>0\<close> are both falsy.\<close>

definition fOrInfinity :: "(string \<rightharpoonup> real) \<Rightarrow> string \<Rightarrow> real option" where
  "fOrInfinity fs key = (case fs key of None \<Rightarrow> None | Some f \<Rightarrow> if f = 0 then None else Some f)"

text \<open>
  The scan for the open key of lowest score: \<^verbatim>\<open>current\<close> starts as \<^verbatim>\<open>null\<close>, \<^verbatim>\<open>lowestF\<close> as
  \<^verbatim>\<open>Infinity\<close>, and a key replaces the current one only when its score is strictly lower.
\<close>

definition pickStep :: "(string \<rightharpoonup> real) \<Rightarrow> string option \<times> real option \<Rightarrow> string \<Rightarrow> string option \<times> real option" where
  "pickStep fs acc key =
     (case fOrInfinity fs key of
        None \<Rightarrow> acc
      | Some f \<Rightarrow>
          (case snd acc of
             None \<Rightarrow> (Some key, Some f)
           | Some lowestF \<Rightarrow> if f < lowestF then (Some key, Some f) else acc))"

definition pickLowest :: "(string \<rightharpoonup> real) \<Rightarrow> string list \<Rightarrow> string option" where
  "pickLowest fs keys = fst (foldl (pickStep fs) (None, None) keys)"

text \<open>
  The body of \<^verbatim>\<open>currentNode.neighbors.forEach\<close>. \<^verbatim>\<open>currentG\<close> is \<open>None\<close> for
  \<^verbatim>\<open>Infinity\<close>, when no comparison \<^verbatim>\<open>tentativeGScore < neighborCurrentG\<close> succeeds.
\<close>

definition relax ::
  "(string \<times> node) list \<Rightarrow> point \<Rightarrow> string \<Rightarrow> real option \<Rightarrow> astar \<Rightarrow> neighbor \<Rightarrow> astar" where
  "relax graph endCentroid current currentG st nb =
     (if n_key nb \<in> set (closedSet st) then st
      else (case currentG of
              None \<Rightarrow> st
            | Some g \<Rightarrow>
                (let tentativeGScore = g + n_distance nb;
                     better = (case gScore st (n_key nb) of
                                 None \<Rightarrow> True
                               | Some neighborCurrentG \<Rightarrow> tentativeGScore < neighborCurrentG)
                 in if better
                    then (let st1 = st\<lparr>cameFrom := (cameFrom st)(n_key nb \<mapsto> current),
                                        gScore := (gScore st)(n_key nb \<mapsto> tentativeGScore)\<rparr>
                          in case map_of graph (n_key nb) of
                               None \<Rightarrow> st1
                             | Some neighborNode \<Rightarrow>
                                 (let h = distance (nd_centroid neighborNode) endCentroid
                                  in st1\<lparr>fScore := (fScore st1)(n_key nb \<mapsto> tentativeGScore + h),
                                         openSet := setAdd (openSet st1) (n_key nb)\<rparr>))
                    else st)))"

text \<open>
  Path reconstruction, \<^verbatim>\<open>while (cameFrom.has(current)) { ...; path.unshift(current) }\<close>, and
  the main loop. Both are loops without a syntactic bound; \<open>None\<close> is the value of a run that
  does not return. That every run returns is proved below
  (\<open>aStar_returns\<close>).
\<close>

partial_function (option) reconstruct :: "(string \<rightharpoonup> string) \<Rightarrow> string \<Rightarrow> string list \<Rightarrow> string list option" where
  "reconstruct cf current path =
     (case cf current of
        None \<Rightarrow> Some path
      | Some prev \<Rightarrow> reconstruct cf prev (prev # path))"

definition expand :: "(string \<times> node) list \<Rightarrow> point \<Rightarrow> astar \<Rightarrow> string \<Rightarrow> astar" where
  "expand graph endCentroid st current =
     (let st1 = st\<lparr>openSet := removeAll current (openSet st),
                     closedSet := setAdd (closedSet st) current\<rparr>
      in case map_of graph current of
           None \<Rightarrow> st1
         | Some currentNode \<Rightarrow>
             foldl (relax graph endCentroid current (gScore st1 current)) st1
               (nd_neighbors currentNode))"

partial_function (option) aStarLoop ::
  "(string \<times> node) list \<Rightarrow> string \<Rightarrow> point \<Rightarrow> astar \<Rightarrow> string list option option" where
  "aStarLoop graph endKey endCentroid st =
     (if openSet st = [] then Some None
      else (case pickLowest (fScore st) (openSet st) of
              None \<Rightarrow> Some None
            | Some current \<Rightarrow>
                if current = [] then Some None
                else if current = endKey
                then map_option Some (reconstruct (cameFrom st) current [current])
                else aStarLoop graph endKey endCentroid (expand graph endCentroid st current)))"

text \<open>
  \<^verbatim>\<open>aStar\<close>. The result \<open>Some None\<close> is \<^verbatim>\<open>null\<close>, \<open>Some (Some path)\<close> a path.
\<close>

definition aStar :: "(string \<times> node) list \<Rightarrow> string \<Rightarrow> string \<Rightarrow> string list option option" where
  "aStar graph startKey endKey =
     (case (map_of graph startKey, map_of graph endKey) of
        (Some startNode, Some endNode) \<Rightarrow>
          (let heuristic = distance (nd_centroid startNode) (nd_centroid endNode)
           in aStarLoop graph endKey (nd_centroid endNode)
                \<lparr>openSet = [startKey], closedSet = [], cameFrom = Map.empty,
                 gScore = [startKey \<mapsto> 0], fScore = [startKey \<mapsto> heuristic]\<rparr>)
      | _ \<Rightarrow> Some None)"

subsection \<open>Path enhancer: \<^verbatim>\<open>addCorridorWaypoints\<close>\<close>

text \<open>The \<^verbatim>\<open>coords.push(...)\<close> loop shared by the two boundary helpers.\<close>

fun collectCoords :: "feature list \<Rightarrow> error + point list" where
  "collectCoords [] = Inr []"
| "collectCoords (f # fs) =
     (case outerRing (geometry f) of
        Inl e \<Rightarrow> Inl e
      | Inr ring \<Rightarrow> (case collectCoords fs of Inl e \<Rightarrow> Inl e | Inr rest \<Rightarrow> Inr (ring @ rest)))"

definition closerStep :: "point \<Rightarrow> point \<times> real \<Rightarrow> point \<Rightarrow> point \<times> real" where
  "closerStep targetPoint acc coord =
     (let dist = distance coord targetPoint
      in if dist < snd acc then (coord, dist) else acc)"

text \<open>\<^verbatim>\<open>getRoomBoundaryPoints\<close>; \<open>Inr None\<close> is the \<^verbatim>\<open>null\<close> result.\<close>

definition getRoomBoundaryPoints :: "feature list \<Rightarrow> point \<Rightarrow> error + point option" where
  "getRoomBoundaryPoints features targetPoint =
     (case collectCoords features of
        Inl e \<Rightarrow> Inl e
      | Inr coords \<Rightarrow>
          (case coords of
             [] \<Rightarrow> Inr None
           | c0 # _ \<Rightarrow>
               Inr (Some (fst (foldl (closerStep targetPoint) (c0, distance c0 targetPoint) coords)))))"

definition interpolate :: "point \<Rightarrow> point \<Rightarrow> nat \<Rightarrow> nat \<Rightarrow> point" where
  "interpolate a b numPoints i =
     (let t = real i / real (numPoints + 1)
      in (fst a + (fst b - fst a) * t, snd a + (snd b - snd a) * t))"

definition getCorridorPathPoints :: "feature list \<Rightarrow> point \<Rightarrow> point \<Rightarrow> nat \<Rightarrow> error + point list" where
  "getCorridorPathPoints features fromPoint toPoint numPoints =
     (case collectCoords features of
        Inl e \<Rightarrow> Inl e
      | Inr coords \<Rightarrow>
          if length coords < 3 then Inr []
          else (case getRoomBoundaryPoints features fromPoint of
                  Inl e \<Rightarrow> Inl e
                | Inr entryPoint \<Rightarrow>
                    (case getRoomBoundaryPoints features toPoint of
                       Inl e \<Rightarrow> Inl e
                     | Inr exitPoint \<Rightarrow>
                         (case (entryPoint, exitPoint) of
                            (Some entry, Some exit) \<Rightarrow>
                              Inr (map (interpolate entry exit numPoints) [1..<Suc numPoints])
                          | _ \<Rightarrow> Inr []))))"

definition waypoint :: "point \<Rightarrow> int \<Rightarrow> string \<Rightarrow> feature list \<Rightarrow> routepoint" where
  "waypoint c fl n fs =
     \<lparr>rp_coords = c, rp_floor = fl, rp_name = n, rp_features = fs,
      rp_isCorridor = None, rp_isWaypoint = Some True\<rparr>"

text \<open>
  What iteration \<open>i\<close> of the loop pushes after \<^verbatim>\<open>pathCoords[i]\<close>, when \<open>i\<close> is not the last
  index. (\<^verbatim>\<open>i < pathCoords.length - 2\<close> is written \<open>i + 2 < length\<close>.)
\<close>

definition waypointsAfter :: "routepoint list \<Rightarrow> nat \<Rightarrow> error + routepoint list" where
  "waypointsAfter pathCoords i =
     (let current = pathCoords ! i;
          next = pathCoords ! (i + 1);
          dist = distance (rp_coords current) (rp_coords next)
      in if dist > 8 / 1000 then
           (let currentIsCorridor = isCorridor (rp_name current);
                nextIsCorridor = isCorridor (rp_name next)
            in if currentIsCorridor \<noteq> nextIsCorridor then
                 (case (if currentIsCorridor
                        then getRoomBoundaryPoints (rp_features current) (rp_coords next)
                        else getRoomBoundaryPoints (rp_features next) (rp_coords current)) of
                    Inl e \<Rightarrow> Inl e
                  | Inr None \<Rightarrow> Inr []
                  | Inr (Some waypointCoord) \<Rightarrow>
                      Inr [waypoint waypointCoord (rp_floor current)
                             (if currentIsCorridor then rp_name current else rp_name next)
                             (if currentIsCorridor then rp_features current else rp_features next)])
               else if currentIsCorridor \<and> nextIsCorridor \<and> dist > 15 / 1000 then
                 (let numWaypoints = min (nat \<lfloor>dist / (1 / 100)\<rfloor>) 5;
                      prevCoords = (if i > 0 then rp_coords (pathCoords ! (i - 1)) else rp_coords current);
                      nextNextCoords = (if i + 2 < length pathCoords
                                        then rp_coords (pathCoords ! (i + 2)) else rp_coords next)
                  in case getCorridorPathPoints (rp_features current) prevCoords nextNextCoords numWaypoints of
                       Inl e \<Rightarrow> Inl e
                     | Inr corridorPoints \<Rightarrow>
                         if length corridorPoints > 0
                         then Inr (map (\<lambda>point. waypoint point (rp_floor current) (rp_name current)
                                                   (rp_features current)) corridorPoints)
                         else Inr (map (\<lambda>j. waypoint
                                               (interpolate (rp_coords current) (rp_coords next) numWaypoints j)
                                               (rp_floor current) (rp_name current) (rp_features current))
                                     [1..<Suc numWaypoints]))
               else if \<not> currentIsCorridor \<and> \<not> nextIsCorridor \<and> dist > 12 / 1000 then
                 Inr [waypoint ((fst (rp_coords current) + fst (rp_coords next)) / 2,
                                (snd (rp_coords current) + snd (rp_coords next)) / 2)
                        (rp_floor current) ''transition'' (rp_features current)]
               else Inr [])
         else Inr [])"

definition enhanceStep :: "routepoint list \<Rightarrow> nat \<Rightarrow> error + routepoint list" where
  "enhanceStep pathCoords i =
     (if i + 1 < length pathCoords
      then (case waypointsAfter pathCoords i of
              Inl e \<Rightarrow> Inl e
            | Inr ws \<Rightarrow> Inr (pathCoords ! i # ws))
      else Inr [pathCoords ! i])"

definition addCorridorWaypoints :: "routepoint list \<Rightarrow> error + routepoint list" where
  "addCorridorWaypoints pathCoords =
     (if length pathCoords < 2 then Inr pathCoords
      else (case mapM (enhanceStep pathCoords) [0..<length pathCoords] of
              Inl e \<Rightarrow> Inl e
            | Inr pieces \<Rightarrow> Inr (concat pieces)))"

subsection \<open>\<^verbatim>\<open>findRoute\<close>\<close>

text \<open>
  The \<^verbatim>\<open>graph.forEach\<close> that resolves the two names: the last node whose lower-cased room
  name matches wins.
\<close>

definition resolveStep ::
  "string \<Rightarrow> string \<Rightarrow> string option \<times> string option \<Rightarrow> string \<times> node \<Rightarrow> string option \<times> string option" where
  "resolveStep startName endName acc kn =
     (let nodeName = toLowerCase (r_name (nd_room (snd kn)))
      in (if nodeName = startName then Some (fst kn) else fst acc,
          if nodeName = endName then Some (fst kn) else snd acc))"

definition pathPoint :: "(string \<times> node) list \<Rightarrow> string \<Rightarrow> error + routepoint" where
  "pathPoint graph key =
     (case map_of graph key of
        None \<Rightarrow> Inl TypeError
      | Some nd \<Rightarrow>
          Inr \<lparr>rp_coords = nd_centroid nd, rp_floor = r_floor (nd_room nd),
               rp_name = r_name (nd_room nd), rp_features = r_features (nd_room nd),
               rp_isCorridor = Some (nd_isCorridor nd), rp_isWaypoint = None\<rparr>)"

text \<open>
  \<^verbatim>\<open>findRoute\<close>. The outer \<open>option\<close> is that of \<^verbatim>\<open>aStar\<close> (\<open>None\<close>: no return); inside,
  \<open>Inl\<close> is a thrown error, \<open>Inr None\<close> the \<^verbatim>\<open>null\<close> result and \<open>Inr (Some path)\<close> a route.
  A key is falsy for \<^verbatim>\<open>!startKey\<close> when it is \<^verbatim>\<open>null\<close> or the empty string.
\<close>

definition findRoute ::
  "feature list \<Rightarrow> feature \<Rightarrow> feature \<Rightarrow> int option \<Rightarrow> (error + routepoint list option) option" where
  "findRoute rooms startRoom endRoom targetFloor =
     (let startName = toLowerCase (getRoomName startRoom);
          endName = toLowerCase (getRoomName endRoom)
      in if startName = [] \<or> endName = [] then Some (Inr None)
         else (case groupRoomsByName rooms of
                 Inl e \<Rightarrow> Some (Inl e)
               | Inr roomGroups \<Rightarrow>
                   (let graph = buildRoomGraph roomGroups targetFloor
                    in case foldl (resolveStep startName endName) (None, None) graph of
                         (Some startKey, Some endKey) \<Rightarrow>
                           if startKey = [] \<or> endKey = [] then Some (Inr None)
                           else (case aStar graph startKey endKey of
                                   None \<Rightarrow> None
                                 | Some None \<Rightarrow> Some (Inr None)
                                 | Some (Some pathKeys) \<Rightarrow>
                                     (case mapM (pathPoint graph) pathKeys of
                                        Inl e \<Rightarrow> Some (Inl e)
                                      | Inr pathCoords \<Rightarrow>
                                          (case addCorridorWaypoints pathCoords of
                                             Inl e \<Rightarrow> Some (Inl e)
                                           | Inr enhancedPath \<Rightarrow> Some (Inr (Some enhancedPath)))))
                       | _ \<Rightarrow> Some (Inr None))))"

section \<open>Specification-side definitions and example inputs\<close>

text \<open>Auxiliary notions used only to state and prove the properties below.\<close>

definition groupInv :: "feature list \<Rightarrow> (string \<times> pregroup) list \<Rightarrow> bool" where
  "groupInv fs G = (distinct (map fst G) \<and> set (map fst G) = featureKey ` set fs \<and>
     (\<forall>k n fl ms. map_of G k = Some (n, fl, ms) \<longrightarrow>
        ms = filter (\<lambda>f. featureKey f = k) fs \<and>
        (\<exists>f \<in> set fs. featureKey f = k \<and> n = getRoomName f \<and> fl = getRoomFloor f)))"

definition digitVal :: "char \<Rightarrow> nat" where "digitVal c = of_char c - 48"

definition natOfDigits :: "string \<Rightarrow> nat" where
  "natOfDigits s = foldl (\<lambda>acc c. 10 * acc + digitVal c) 0 s"

definition specFloor :: "feature \<Rightarrow> int" where
  "specFloor f =
     (case p_floor f of Some v \<Rightarrow> v
      | None \<Rightarrow> (case p_level f of Some v \<Rightarrow> v
                 | None \<Rightarrow> (case p_nivel f of Some v \<Rightarrow> v | None \<Rightarrow> 0)))"

definition meanPoint :: "point list \<Rightarrow> point" where
  "meanPoint ps = (sum_list (map fst ps) / real (length ps), sum_list (map snd ps) / real (length ps))"

definition specCentroid :: "feature list \<Rightarrow> point" where
  "specCentroid fs =
     meanPoint (concat (map (\<lambda>f. case outerRing (geometry f) of Inr ring \<Rightarrow> ring | Inl e \<Rightarrow> []) fs))"

definition mkFeature :: "string \<Rightarrow> int option \<Rightarrow> geometry \<Rightarrow> feature" where
  "mkFeature n fl g = \<lparr>p_name = Some n, p_id = None, p_room_id = None, p_floor = fl,
      p_nivel = None, p_level = None, geometry = g\<rparr>"

definition exLevelNivel :: feature where
  "exLevelNivel = \<lparr>p_name = Some ''A'', p_id = None, p_room_id = None, p_floor = None,
      p_nivel = Some 2, p_level = Some 1, geometry = OtherGeometry\<rparr>"

definition exTwoParts :: "feature list" where
  "exTwoParts = [mkFeature ''A'' None (Polygon [[(0, 0), (2, 0)]]), mkFeature ''A'' None (LineString [(4, 0)])]"


definition roomKeyOf :: "room \<Rightarrow> string" where
  "roomKeyOf r = roomKey (r_name r) (r_floor r)"

definition sameFloorThreshold :: "bool \<Rightarrow> bool \<Rightarrow> real" where
  "sameFloorThreshold a b = (if a \<and> b then 5 / 100 else if a \<or> b then 3 / 100 else 15 / 1000)"

definition sameFloorMultiplier :: "bool \<Rightarrow> bool \<Rightarrow> real" where
  "sameFloorMultiplier a b = (if a \<and> b then 8 / 10 else if a \<or> b then 9 / 10 else 12 / 10)"

definition specVerticalConnector :: "string \<Rightarrow> bool" where
  "specVerticalConnector roomName =
     (let name = toLowerCase roomName in
        strIncludes name ''stair'' \<or> strIncludes name ''escada'' \<or> strIncludes name ''elevador'' \<or>
        strIncludes name ''elevator'' \<or> strIncludes name ''lift'')"

definition mkRoom :: "string \<Rightarrow> int \<Rightarrow> feature list \<Rightarrow> point \<Rightarrow> room" where
  "mkRoom n fl fs c = \<lparr>r_name = n, r_floor = fl, r_features = fs, r_centroid = c\<rparr>"

definition exLobbyOffice :: "feature list" where
  "exLobbyOffice = [mkFeature ''Lobby'' (Some 1) (LineString [(0, 0)]),
                    mkFeature ''Office'' (Some 2) (LineString [(1 / 100, 0)])]"

definition exLobby :: room where
  "exLobby = mkRoom ''Lobby'' 1 [mkFeature ''Lobby'' (Some 1) (LineString [(0, 0)])] (0, 0)"

definition exOffice2 :: room where
  "exOffice2 = mkRoom ''Office'' 2 [mkFeature ''Office'' (Some 2) (LineString [(1 / 100, 0)])] (1 / 100, 0)"

definition exHallOffice :: "feature list" where
  "exHallOffice = [mkFeature ''Hall'' (Some 1) (LineString [(0, 0)]),
                   mkFeature ''Office'' (Some 1) (LineString [(2 / 100, 0)])]"

definition exHall :: room where
  "exHall = mkRoom ''Hall'' 1 [mkFeature ''Hall'' (Some 1) (LineString [(0, 0)])] (0, 0)"

definition exOffice1 :: room where
  "exOffice1 = mkRoom ''Office'' 1 [mkFeature ''Office'' (Some 1) (LineString [(2 / 100, 0)])] (2 / 100, 0)"

definition exCoincident :: "feature list" where
  "exCoincident = [mkFeature ''A'' (Some 1) (LineString [(0, 0)]),
                   mkFeature ''B'' (Some 1) (LineString [(0, 0)])]"

definition exRoomA :: room where
  "exRoomA = mkRoom ''A'' 1 [mkFeature ''A'' (Some 1) (LineString [(0, 0)])] (0, 0)"

definition exRoomB :: room where
  "exRoomB = mkRoom ''B'' 1 [mkFeature ''B'' (Some 1) (LineString [(0, 0)])] (0, 0)"

definition mkPoint :: "point \<Rightarrow> int \<Rightarrow> string \<Rightarrow> routepoint" where
  "mkPoint c fl n = \<lparr>rp_coords = c, rp_floor = fl, rp_name = n, rp_features = [],
      rp_isCorridor = Some False, rp_isWaypoint = None\<rparr>"

definition exTenMetres :: "routepoint list" where
  "exTenMetres = [mkPoint (0, 0) 1 ''A'', mkPoint (0, 1800 / (6371000 * pi)) 1 ''B'']"

definition statsLoop :: "routepoint list \<Rightarrow> nat \<Rightarrow> statsState" where
  "statsLoop routePath k =
     foldl (statsStep routePath) \<lparr>ss_totalDistance = 0, ss_floorsSet = [], ss_floorChanges = 0\<rparr> [1..<k]"

datatype turnClass = StraightC | SlightC | PlainTurnC | SharpTurnC | BackC

definition classify :: "real \<Rightarrow> turnClass" where
  "classify delta =
     (if \<bar>delta\<bar> < 20 then StraightC
      else if \<bar>delta\<bar> < 60 then SlightC
      else if \<bar>delta\<bar> < 120 then PlainTurnC
      else if \<bar>delta\<bar> < 160 then SharpTurnC
      else BackC)"

definition signedDelta :: "real \<Rightarrow> real \<Rightarrow> real" where
  "signedDelta b1 b2 =
     (if b2 - b1 > 180 then b2 - b1 - 360 else if b2 - b1 < - 180 then b2 - b1 + 360 else b2 - b1)"

fun turnName :: "turnClass \<Rightarrow> bool \<Rightarrow> string" where
  "turnName StraightC right = ''straight''"
| "turnName SlightC right = (if right then ''slight right'' else ''slight left'')"
| "turnName PlainTurnC right = (if right then ''right'' else ''left'')"
| "turnName SharpTurnC right = (if right then ''sharp right'' else ''sharp left'')"
| "turnName BackC right = ''back''"

definition dirLoop :: "routepoint list \<Rightarrow> nat \<Rightarrow> dirState" where
  "dirLoop routePath k = foldl (dirStep routePath) (dirInit routePath) [1..<k]"

definition emittedAt :: "routepoint list \<Rightarrow> nat \<Rightarrow> direction list" where
  "emittedAt routePath i =
     drop (length (directions (dirLoop routePath i))) (directions (dirLoop routePath (Suc i)))"

definition segBearing :: "routepoint list \<Rightarrow> nat \<Rightarrow> real" where
  "segBearing routePath i = calculateBearing (rp_coords (routePath ! (i - 1))) (rp_coords (routePath ! i))"

definition segLength :: "routepoint list \<Rightarrow> nat \<Rightarrow> real" where
  "segLength routePath i = calculateDistance (rp_coords (routePath ! (i - 1))) (rp_coords (routePath ! i))"

fun lastEmit :: "routepoint list \<Rightarrow> nat \<Rightarrow> nat" where
  "lastEmit routePath 0 = 0"
| "lastEmit routePath (Suc k) =
     (if 1 \<le> k \<and> emittedAt routePath k \<noteq> [] then k else lastEmit routePath k)"

definition sinceLastEmission :: "routepoint list \<Rightarrow> nat \<Rightarrow> real" where
  "sinceLastEmission routePath i =
     sum_list (map (segLength routePath) [Suc (lastEmit routePath i)..<Suc i])"

definition exRightAngle :: "routepoint list" where
  "exRightAngle = [mkPoint (0, - 1) 1 ''A'', mkPoint (0, 0) 1 ''B'', mkPoint (1, 0) 1 ''C'']"

definition ringed :: "feature \<Rightarrow> bool" where
  "ringed f = (\<exists>ring. outerRing (geometry f) = Inr ring)"

definition exTwoRooms :: "routepoint list" where
  "exTwoRooms = [mkPoint (0, 0) 1 ''A'', mkPoint (2 / 100, 0) 1 ''B'']"

text \<open>
  The haversine formula as it is usually stated: for two points given as (longitude,
  latitude) in degrees on a sphere of radius \<open>R\<close>, the great-circle distance is
  \<open>2 R arcsin (sqrt h)\<close> with \<open>h = sin\<^sup>2 (dphi / 2) + cos phi1 cos phi2 sin\<^sup>2 (dlam / 2)\<close>.
  It is written independently of \<^verbatim>\<open>calculateDistance\<close>, which computes the angle with
  \<^verbatim>\<open>Math.atan2\<close>; the two are proved equal below.
\<close>

definition radians :: "real \<Rightarrow> real" where
  "radians deg = deg * pi / 180"

definition haversine :: "real \<Rightarrow> point \<Rightarrow> point \<Rightarrow> real" where
  "haversine R p q =
     (let phi1 = radians (snd p); phi2 = radians (snd q);
          lam1 = radians (fst p); lam2 = radians (fst q);
          h = (sin ((phi2 - phi1) / 2))\<^sup>2 + cos phi1 * cos phi2 * (sin ((lam2 - lam1) / 2))\<^sup>2
      in 2 * R * arcsin (sqrt h))"

text \<open>
  Walks in a graph. \<open>walk G s p v c\<close>: \<open>p\<close> is the list of keys of a walk from \<open>s\<close> to \<open>v\<close>
  along neighbour entries of \<open>G\<close>, every key of it a node of \<open>G\<close>, and \<open>c\<close> is the sum of the
  \<^verbatim>\<open>distance\<close> fields of the entries used. \<open>chain cf n p\<close>: following the predecessor map
  \<open>cf\<close> from \<open>n\<close> back to a key without predecessor visits \<open>p\<close> in reverse.
\<close>

type_synonym graph = "(string \<times> node) list"

inductive walk :: "graph \<Rightarrow> string \<Rightarrow> string list \<Rightarrow> string \<Rightarrow> real \<Rightarrow> bool" for G s where
  walk_start: "map_of G s = Some nd \<Longrightarrow> walk G s [s] s 0"
| walk_step: "walk G s p u c \<Longrightarrow> map_of G u = Some nd \<Longrightarrow> nb \<in> set (nd_neighbors nd) \<Longrightarrow>
     map_of G (n_key nb) = Some nd' \<Longrightarrow> walk G s (p @ [n_key nb]) (n_key nb) (c + n_distance nb)"

inductive chain :: "(string \<rightharpoonup> string) \<Rightarrow> string \<Rightarrow> string list \<Rightarrow> bool" for cf where
  chain_root: "cf n = None \<Longrightarrow> chain cf n [n]"
| chain_step: "cf n = Some c \<Longrightarrow> chain cf c p \<Longrightarrow> chain cf n (p @ [n])"

text \<open>
  The condition of the optimality claim: every edge weighs at least the Euclidean distance
  between the centroids of its endpoints. \<open>heur\<close> is the heuristic \<^verbatim>\<open>aStar\<close> adds to the g-score
  of a node.
\<close>

definition weightsDominate :: "graph \<Rightarrow> bool" where
  "weightsDominate G =
     (\<forall>u nd nb nd'. map_of G u = Some nd \<and> nb \<in> set (nd_neighbors nd) \<and> map_of G (n_key nb) = Some nd'
        \<longrightarrow> distance (nd_centroid nd) (nd_centroid nd') \<le> n_distance nb)"

definition heur :: "graph \<Rightarrow> point \<Rightarrow> string \<Rightarrow> real" where
  "heur G endCentroid k = (case map_of G k of Some nd \<Rightarrow> distance (nd_centroid nd) endCentroid | None \<Rightarrow> 0)"

text \<open>
  Invariants of the search loop. \<open>pickAcc\<close> describes the accumulator of the selection
  \<^verbatim>\<open>forEach\<close>; \<open>invA\<close> holds of every state the loop reaches; \<open>invB\<close> holds in addition when the
  weights dominate the distances and the start and end centroids differ: closed nodes carry
  the weight of a lightest walk, and every edge leaving a closed node has been relaxed.
  \<open>close\<close> is the first half of an expansion, \<open>initial\<close> the state before the first iteration.
\<close>

definition pickAcc :: "(string \<rightharpoonup> real) \<Rightarrow> string list \<Rightarrow> string option \<times> real option \<Rightarrow> bool" where
  "pickAcc fs seen acc =
     (case acc of
        (None, None) \<Rightarrow> (\<forall>k \<in> set seen. fOrInfinity fs k = None)
      | (Some c, Some l) \<Rightarrow> fOrInfinity fs c = Some l \<and> c \<in> set seen \<and>
           (\<forall>k \<in> set seen. \<forall>f. fOrInfinity fs k = Some f \<longrightarrow> l \<le> f)
      | _ \<Rightarrow> False)"

definition invSets :: "graph \<Rightarrow> astar \<Rightarrow> bool" where
  "invSets G st =
     (distinct (openSet st) \<and> distinct (closedSet st) \<and>
      set (openSet st) \<inter> set (closedSet st) = {} \<and>
      set (openSet st) \<subseteq> dom (map_of G) \<and> set (closedSet st) \<subseteq> dom (map_of G) \<and>
      (\<forall>n \<in> dom (map_of G). gScore st n \<noteq> None \<longrightarrow> n \<in> set (openSet st) \<union> set (closedSet st)))"

definition invStart :: "string \<Rightarrow> astar \<Rightarrow> bool" where
  "invStart s st =
     (gScore st s = Some 0 \<and> cameFrom st s = None \<and>
      (s \<in> set (closedSet st) \<or> (openSet st = [s] \<and> closedSet st = [])))"

definition invChain :: "graph \<Rightarrow> string \<Rightarrow> astar \<Rightarrow> bool" where
  "invChain G s st =
     ((\<forall>n c. cameFrom st n = Some c \<longrightarrow> c \<in> set (closedSet st)) \<and>
      (\<forall>n \<in> set (openSet st) \<union> set (closedSet st).
         \<exists>g p. gScore st n = Some g \<and> chain (cameFrom st) n p \<and> walk G s p n g))"

definition invF :: "graph \<Rightarrow> point \<Rightarrow> astar \<Rightarrow> bool" where
  "invF G ec st =
     (\<forall>n \<in> set (openSet st). \<exists>g. gScore st n = Some g \<and> fScore st n = Some (g + heur G ec n))"

definition invA :: "graph \<Rightarrow> string \<Rightarrow> point \<Rightarrow> astar \<Rightarrow> bool" where
  "invA G s ec st = (invSets G st \<and> invStart s st \<and> invChain G s st \<and> invF G ec st)"

definition improves :: "real \<Rightarrow> astar \<Rightarrow> neighbor \<Rightarrow> bool" where
  "improves gc st nb =
     (n_key nb \<notin> set (closedSet st) \<and>
      (case gScore st (n_key nb) of None \<Rightarrow> True | Some gv \<Rightarrow> gc + n_distance nb < gv))"

definition close :: "astar \<Rightarrow> string \<Rightarrow> astar" where
  "close st current = st\<lparr>openSet := removeAll current (openSet st),
                          closedSet := setAdd (closedSet st) current\<rparr>"

definition initial :: "string \<Rightarrow> real \<Rightarrow> astar" where
  "initial startKey heuristic =
     \<lparr>openSet = [startKey], closedSet = [], cameFrom = Map.empty,
      gScore = [startKey \<mapsto> 0], fScore = [startKey \<mapsto> heuristic]\<rparr>"

definition good :: "astar \<Rightarrow> string \<Rightarrow> neighbor \<Rightarrow> bool" where
  "good st u nb =
     (n_key nb \<in> set (closedSet st) \<or>
      (n_key nb \<in> set (openSet st) \<and>
       (\<exists>gu gv. gScore st u = Some gu \<and> gScore st (n_key nb) = Some gv \<and> gv \<le> gu + n_distance nb)))"

definition relaxedExcept :: "graph \<Rightarrow> astar \<Rightarrow> string \<Rightarrow> neighbor list \<Rightarrow> bool" where
  "relaxedExcept G st c pending =
     (\<forall>u \<in> set (closedSet st). \<forall>nd nb. map_of G u = Some nd \<longrightarrow> nb \<in> set (nd_neighbors nd) \<longrightarrow>
        n_key nb \<in> dom (map_of G) \<longrightarrow> (u = c \<and> nb \<in> set pending) \<or> good st u nb)"

definition closedOptimal :: "graph \<Rightarrow> string \<Rightarrow> astar \<Rightarrow> bool" where
  "closedOptimal G s st =
     (\<forall>u \<in> set (closedSet st). \<forall>g q cw. gScore st u = Some g \<longrightarrow> walk G s q u cw \<longrightarrow> g \<le> cw)"

definition invB :: "graph \<Rightarrow> string \<Rightarrow> astar \<Rightarrow> bool" where
  "invB G s st = (closedOptimal G s st \<and> relaxedExcept G st [] [])"

text \<open>
  Example: two rooms with the same footprint on floors 1 and 2 and a staircase on floor 2
  next to them. The graph built from them has the edges Room101 - Stairs (between floors,
  weight 0.02) and Stairs - Room201 (same floor, weight 0.012).
\<close>

definition exFootprint :: "real \<Rightarrow> point list" where
  "exFootprint x0 = [(x0, 0), (x0 + 2 / 1000, 0), (x0 + 2 / 1000, 2 / 1000), (x0, 2 / 1000)]"

definition exStacked :: "feature list" where
  "exStacked = [mkFeature ''Room101'' (Some 1) (Polygon [exFootprint 0]),
                mkFeature ''Stairs'' (Some 2) (Polygon [exFootprint (1 / 100)]),
                mkFeature ''Room201'' (Some 2) (Polygon [exFootprint 0])]"

definition exRoom101 :: room where
  "exRoom101 = mkRoom ''Room101'' 1 [mkFeature ''Room101'' (Some 1) (Polygon [exFootprint 0])]
                 (1 / 1000, 1 / 1000)"

definition exStairs :: room where
  "exStairs = mkRoom ''Stairs'' 2 [mkFeature ''Stairs'' (Some 2) (Polygon [exFootprint (1 / 100)])]
                 (11 / 1000, 1 / 1000)"

definition exRoom201 :: room where
  "exRoom201 = mkRoom ''Room201'' 2 [mkFeature ''Room201'' (Some 2) (Polygon [exFootprint 0])]
                 (1 / 1000, 1 / 1000)"

definition exStackedGroups :: "(string \<times> room) list" where
  "exStackedGroups = [(''Room101_F1'', exRoom101), (''Stairs_F2'', exStairs), (''Room201_F2'', exRoom201)]"

definition edge :: "string \<Rightarrow> string \<Rightarrow> int \<Rightarrow> real \<Rightarrow> neighbor" where
  "edge k n fl w = \<lparr>n_key = k, n_name = n, n_floor = fl, n_distance = w, n_isCorridor = False\<rparr>"

definition exStackedGraph :: "(string \<times> node) list" where
  "exStackedGraph =
     [(''Room101_F1'', \<lparr>nd_room = exRoom101, nd_neighbors = [edge ''Stairs_F2'' ''Stairs'' 2 (2 / 100)],
                         nd_centroid = (1 / 1000, 1 / 1000), nd_isCorridor = False\<rparr>),
      (''Stairs_F2'', \<lparr>nd_room = exStairs,
                        nd_neighbors = [edge ''Room101_F1'' ''Room101'' 1 (2 / 100),
                                        edge ''Room201_F2'' ''Room201'' 2 (12 / 1000)],
                        nd_centroid = (11 / 1000, 1 / 1000), nd_isCorridor = False\<rparr>),
      (''Room201_F2'', \<lparr>nd_room = exRoom201, nd_neighbors = [edge ''Stairs_F2'' ''Stairs'' 2 (12 / 1000)],
                         nd_centroid = (1 / 1000, 1 / 1000), nd_isCorridor = False\<rparr>)]"

text \<open>
  Example: a collection whose first feature is a Polygon with an empty \<^verbatim>\<open>coordinates\<close> array.
\<close>

definition exEmptyPolygon :: "feature list" where
  "exEmptyPolygon = [mkFeature ''A'' (Some 1) (Polygon []),
                     mkFeature ''B'' (Some 1) (LineString [(1 / 100, 0)])]"

section \<open>Verified properties\<close>

subsection \<open>Room index\<close>

lemma map_fst_mapUpd [simp]: "map fst (mapUpd m k g) = map fst m"
  by (induction m) auto

lemma mapHas_iff: "mapHas m k \<longleftrightarrow> k \<in> set (map fst m)"
  by (simp add: mapHas_def)

lemma map_of_mapUpd: "map_of (mapUpd m k g) = (map_of m)(k := map_option g (map_of m k))"
  by (induction m) (auto simp: fun_eq_iff)

lemma map_of_snoc_fresh: "k \<notin> set (map fst m) \<Longrightarrow> map_of (m @ [(k, v)]) = (map_of m)(k \<mapsto> v)"
  by (induction m) (auto simp: fun_eq_iff)

lemma groupFeatures_snoc: "groupFeatures (fs @ [f]) = groupStep (groupFeatures fs) f"
  by (simp add: groupFeatures_def)

lemma map_fst_groupStep:
  "map fst (groupStep G f) =
     (if featureKey f \<in> set (map fst G) then map fst G else map fst G @ [featureKey f])"
  by (simp add: groupStep_def Let_def mapHas_iff mapSet_def featureKey_def)

lemma map_of_groupStep:
  "map_of (groupStep G f) =
     (map_of G)(featureKey f \<mapsto>
        (case map_of G (featureKey f) of
           None \<Rightarrow> (getRoomName f, getRoomFloor f, [f])
         | Some g \<Rightarrow> pushFeature f g))"
proof (cases "featureKey f \<in> set (map fst G)")
  case True
  then obtain g where "map_of G (featureKey f) = Some g"
    by (metis map_of_eq_None_iff not_Some_eq set_map)
  with True show ?thesis
    by (simp add: groupStep_def Let_def mapHas_iff map_of_mapUpd featureKey_def)
next
  case False
  then have "map_of G (featureKey f) = None"
    by (simp add: map_of_eq_None_iff)
  with False show ?thesis
    by (simp add: groupStep_def Let_def mapHas_iff mapSet_def map_of_mapUpd
        map_of_snoc_fresh featureKey_def pushFeature_def del: map_of_append)
qed

lemma groupInv_step:
  assumes "groupInv fs G"
  shows "groupInv (fs @ [f]) (groupStep G f)"
proof -
  from assms have d: "distinct (map fst G)" and k: "set (map fst G) = featureKey ` set fs"
    and m: "\<And>k n fl ms. map_of G k = Some (n, fl, ms) \<Longrightarrow>
        ms = filter (\<lambda>f. featureKey f = k) fs \<and>
        (\<exists>f \<in> set fs. featureKey f = k \<and> n = getRoomName f \<and> fl = getRoomFloor f)"
    by (auto simp: groupInv_def)
  have d': "distinct (map fst (groupStep G f))"
    using d by (simp add: map_fst_groupStep)
  have k': "set (map fst (groupStep G f)) = featureKey ` set (fs @ [f])"
    using k by (auto simp: map_fst_groupStep)
  have m': "ms = filter (\<lambda>f. featureKey f = k') (fs @ [f]) \<and>
        (\<exists>f' \<in> set (fs @ [f]). featureKey f' = k' \<and> n = getRoomName f' \<and> fl = getRoomFloor f')"
    if h: "map_of (groupStep G f) k' = Some (n, fl, ms)" for k' n fl ms
  proof (cases "k' = featureKey f")
    case False
    with h have "map_of G k' = Some (n, fl, ms)" by (simp add: map_of_groupStep)
    from m[OF this] False show ?thesis by auto
  next
    case True
    show ?thesis
    proof (cases "map_of G (featureKey f)")
      case None
      then have "featureKey f \<notin> featureKey ` set fs"
        using k by (metis map_of_eq_None_iff set_map)
      then have "\<forall>x\<in>set fs. featureKey x \<noteq> featureKey f"
        by (metis imageI)
      then have "filter (\<lambda>g. featureKey g = featureKey f) fs = []"
        by (simp add: filter_empty_conv)
      with h True None show ?thesis by (auto simp: map_of_groupStep)
    next
      case (Some g)
      obtain n0 fl0 ms0 where g: "g = (n0, fl0, ms0)" by (cases g) auto
      from m[of "featureKey f" n0 fl0 ms0] Some g
      have "ms0 = filter (\<lambda>g. featureKey g = featureKey f) fs"
        and "\<exists>f' \<in> set fs. featureKey f' = featureKey f \<and> n0 = getRoomName f' \<and> fl0 = getRoomFloor f'"
        by auto
      with h True Some g show ?thesis
        by (auto simp: map_of_groupStep pushFeature_def)
    qed
  qed
  show ?thesis unfolding groupInv_def using d' k' m' by blast
qed

lemma groupInv_groupFeatures: "groupInv fs (groupFeatures fs)"
proof (induction fs rule: rev_induct)
  case Nil
  show ?case by (simp add: groupInv_def groupFeatures_def)
next
  case (snoc f fs)
  then show ?case by (simp add: groupFeatures_snoc groupInv_step)
qed


lemma digitChar_val_all: "\<forall>d \<in> set [0..<10]. (of_char (digitChar d) :: nat) = 48 + d"
  by (simp add: digitChar_def upt_rec)

lemma digitChar_val: "d < 10 \<Longrightarrow> (of_char (digitChar d) :: nat) = 48 + d"
  using digitChar_val_all by (metis atLeastLessThan_iff set_upt zero_le)

lemma natOfDigits_digitsOfNat: "natOfDigits (digitsOfNat n) = n"
proof (induction n rule: digitsOfNat.induct)
  case (1 n)
  show ?case
  proof (cases "n < 10")
    case True
    then show ?thesis
      by (subst digitsOfNat.simps) (simp add: natOfDigits_def digitVal_def digitChar_val)
  next
    case False
    then have "natOfDigits (digitsOfNat (n div 10)) = n div 10" using 1 by simp
    with False show ?thesis
      by (subst digitsOfNat.simps) (simp add: natOfDigits_def digitVal_def digitChar_val)
  qed
qed

lemma digitsOfNat_inj: "digitsOfNat m = digitsOfNat n \<Longrightarrow> m = n"
  by (metis natOfDigits_digitsOfNat)

lemma digitChar_range: "d < 10 \<Longrightarrow> 48 \<le> (of_char (digitChar d) :: nat) \<and> (of_char (digitChar d) :: nat) \<le> 57"
  by (simp add: digitChar_val)

lemma digitsOfNat_chars: "c \<in> set (digitsOfNat n) \<Longrightarrow> 48 \<le> (of_char c :: nat) \<and> (of_char c :: nat) \<le> 57"
proof (induction n rule: digitsOfNat.induct)
  case (1 n)
  show ?case
  proof (cases "n < 10")
    case True
    with 1(2) show ?thesis
      by (subst (asm) digitsOfNat.simps) (auto simp: digitChar_val)
  next
    case False
    with 1 show ?thesis
      by (subst (asm) (2) digitsOfNat.simps) (auto simp: digitChar_val)
  qed
qed

lemma digitsOfNat_nonempty: "digitsOfNat n \<noteq> []"
  by (subst digitsOfNat.simps) simp

lemma showInt_chars: "c \<in> set (showInt i) \<Longrightarrow> c \<noteq> CHR ''F''"
  by (auto simp: showInt_def dest: digitsOfNat_chars split: if_splits)

lemma showInt_inj: "showInt i = showInt j \<Longrightarrow> i = j"
proof -
  assume h: "showInt i = showInt j"
  have neg: "False" if "a < 0" "\<not> b < 0" "showInt a = showInt b" for a b
  proof -
    from that have "CHR ''-'' # digitsOfNat (nat (- a)) = digitsOfNat (nat b)"
      by (simp add: showInt_def)
    then have "CHR ''-'' \<in> set (digitsOfNat (nat b))" by (metis list.set_intros(1))
    from digitsOfNat_chars[OF this] show False by simp
  qed
  show ?thesis
  proof (cases "i < 0"; cases "j < 0")
    assume "i < 0" "j < 0"
    with h have "nat (- i) = nat (- j)" by (auto simp: showInt_def dest: digitsOfNat_inj)
    with \<open>i < 0\<close> \<open>j < 0\<close> show ?thesis by simp
  next
    assume "i < 0" "\<not> j < 0" with neg h show ?thesis by blast
  next
    assume "\<not> i < 0" "j < 0" with neg[of j i] h show ?thesis by simp
  next
    assume "\<not> i < 0" "\<not> j < 0"
    with h have "nat i = nat j" by (auto simp: showInt_def dest: digitsOfNat_inj)
    with \<open>\<not> i < 0\<close> \<open>\<not> j < 0\<close> show ?thesis by simp
  qed
qed

lemma split_at_first:
  "x \<notin> set xs \<Longrightarrow> x \<notin> set xs' \<Longrightarrow> xs @ x # ys = xs' @ x # ys' \<Longrightarrow> xs = xs' \<and> ys = ys'"
proof (induction xs arbitrary: xs')
  case Nil
  then show ?case by (cases xs') auto
next
  case (Cons a xs)
  then show ?case by (cases xs') auto
qed

lemma roomKey_inj: "roomKey n1 f1 = roomKey n2 f2 \<longleftrightarrow> n1 = n2 \<and> f1 = f2"
proof
  assume "roomKey n1 f1 = roomKey n2 f2"
  then have "rev (n1 @ ''_F'' @ showInt f1) = rev (n2 @ ''_F'' @ showInt f2)"
    by (simp add: roomKey_def)
  then have eq: "rev (showInt f1) @ CHR ''F'' # (CHR ''_'' # rev n1) =
             rev (showInt f2) @ CHR ''F'' # (CHR ''_'' # rev n2)"
    by simp
  have a: "CHR ''F'' \<notin> set (rev (showInt f1))" and b: "CHR ''F'' \<notin> set (rev (showInt f2))"
    using showInt_chars by auto
  have "rev (showInt f1) = rev (showInt f2) \<and> CHR ''_'' # rev n1 = CHR ''_'' # rev n2"
    by (rule split_at_first[OF a b eq])
  then show "n1 = n2 \<and> f1 = f2" by (auto dest: showInt_inj)
qed auto

lemma featureKey_eq_roomKey:
  "featureKey f = roomKey n fl \<longleftrightarrow> getRoomName f = n \<and> getRoomFloor f = fl"
  by (simp add: featureKey_def roomKey_inj)


lemma mapM_Inr: "mapM g xs = Inr ys \<Longrightarrow> list_all2 (\<lambda>x y. g x = Inr y) xs ys"
  by (induction xs arbitrary: ys) (auto split: sum.splits)

lemma mapM_total: "\<forall>x \<in> set xs. \<exists>y. g x = Inr y \<Longrightarrow> \<exists>ys. mapM g xs = Inr ys"
  by (induction xs) fastforce+


lemma foldl_add_fst: "foldl (\<lambda>sum c. sum + fst c) a cs = a + sum_list (map fst cs)"
  for a :: real
  by (induction cs arbitrary: a) auto

lemma foldl_add_snd: "foldl (\<lambda>sum c. sum + snd c) a cs = a + sum_list (map snd cs)"
  for a :: real
  by (induction cs arbitrary: a) auto

lemma foldl_addCoord: "foldl addCoord a cs = (fst a + sum_list (map fst cs), snd a + sum_list (map snd cs))"
  by (induction cs arbitrary: a) (auto simp: addCoord_def)

lemma avgCentroid_mean: "avgCentroid cs = meanPoint cs"
  by (simp add: avgCentroid_def meanPoint_def foldl_add_fst foldl_add_snd)

lemma centroidOfCoords_mean: "centroidOfCoords ring = (if ring = [] then (0, 0) else meanPoint ring)"
  by (simp add: centroidOfCoords_def meanPoint_def foldl_addCoord Let_def)

lemma mapM_getCentroid:
  "mapM getCentroid fs = Inr cs \<Longrightarrow>
   \<exists>rings. map (\<lambda>f. outerRing (geometry f)) fs = map Inr rings \<and> cs = map centroidOfCoords rings"
proof (induction fs arbitrary: cs)
  case Nil
  then show ?case by simp
next
  case (Cons f fs)
  from Cons.prems obtain c cs' where c: "getCentroid f = Inr c" and cs': "mapM getCentroid fs = Inr cs'"
    and cs: "cs = c # cs'"
    by (auto split: sum.splits)
  from c obtain ring where ring: "outerRing (geometry f) = Inr ring" "c = centroidOfCoords ring"
    by (auto simp: getCentroid_def split: sum.splits)
  from Cons.IH[OF cs'] obtain rings where
    "map (\<lambda>f. outerRing (geometry f)) fs = map Inr rings" "cs' = map centroidOfCoords rings" by blast
  with ring cs have "map (\<lambda>f. outerRing (geometry f)) (f # fs) = map Inr (ring # rings) \<and>
       cs = map centroidOfCoords (ring # rings)" by simp
  then show ?case by blast
qed

lemma list_all2_rhs_memD: "list_all2 P xs ys \<Longrightarrow> y \<in> set ys \<Longrightarrow> \<exists>x \<in> set xs. P x y"
  by (induction rule: list_all2_induct) auto

lemma groupRoomsByName_rel:
  assumes "groupRoomsByName features = Inr roomGroups"
  shows "list_all2 (\<lambda>kg kr. finishGroup kg = Inr kr) (groupFeatures features) roomGroups"
  using assms by (simp add: groupRoomsByName_def mapM_Inr)

lemma finishGroup_Inr:
  "finishGroup (k, n, fl, ms) = Inr kr \<Longrightarrow>
   \<exists>cs. mapM getCentroid ms = Inr cs \<and>
     kr = (k, \<lparr>r_name = n, r_floor = fl, r_features = ms, r_centroid = avgCentroid cs\<rparr>)"
  by (auto simp: finishGroup_def split: sum.splits)

lemma groupRoomsByName_shape:
  assumes "groupRoomsByName features = Inr roomGroups"
  shows "map (\<lambda>(key, r). (key, r_name r, r_floor r, r_features r)) roomGroups = groupFeatures features"
proof -
  have "list_all2 (\<lambda>kg kr. finishGroup kg = Inr kr) G R \<Longrightarrow>
        map (\<lambda>(key, r). (key, r_name r, r_floor r, r_features r)) R = G" for G R
  proof (induction rule: list_all2_induct)
    case Nil
    show ?case by simp
  next
    case (Cons kg G kr R)
    obtain k n fl ms where "kg = (k, n, fl, ms)" by (cases kg) auto
    with Cons show ?case by (auto dest: finishGroup_Inr)
  qed
  then show ?thesis using groupRoomsByName_rel[OF assms] by blast
qed

lemma groupFeatures_members_nonempty:
  assumes "(k, n, fl, ms) \<in> set (groupFeatures features)"
  shows "k = roomKey n fl \<and> ms \<noteq> [] \<and>
         ms = filter (\<lambda>f. getRoomName f = n \<and> getRoomFloor f = fl) features"
proof -
  have inv: "groupInv features (groupFeatures features)" by (rule groupInv_groupFeatures)
  then have d: "distinct (map fst (groupFeatures features))" by (simp add: groupInv_def)
  with assms have "map_of (groupFeatures features) k = Some (n, fl, ms)" by simp
  with inv have ms: "ms = filter (\<lambda>f. featureKey f = k) features"
    and ex: "\<exists>f \<in> set features. featureKey f = k \<and> n = getRoomName f \<and> fl = getRoomFloor f"
    unfolding groupInv_def by blast+
  from ex have k: "k = roomKey n fl" by (auto simp: featureKey_def)
  from ex ms have "ms \<noteq> []" by (auto simp: filter_empty_conv)
  with k ms show ?thesis by (simp add: featureKey_eq_roomKey)
qed

text \<open>
  Claim C5 (as amended). The floor of a feature is the first truthy value, that is the first
  value that is present and not \<open>0\<close>, among the properties \<^verbatim>\<open>floor\<close>, \<^verbatim>\<open>nivel\<close>,
  \<^verbatim>\<open>level\<close> in that order, and \<open>0\<close> when there is none.
\<close>

theorem getRoomFloor_first_truthy:
  "getRoomFloor f =
     (case filter (\<lambda>v. v \<noteq> 0) (List.map_filter (\<lambda>x. x) [p_floor f, p_nivel f, p_level f]) of
        [] \<Rightarrow> 0 | v # _ \<Rightarrow> v)"
  by (auto simp: getRoomFloor_def jsOr_def truthyNum_def List.map_filter_def split: option.splits)

text \<open>
  Claim C5 as stated fails: a feature with \<^verbatim>\<open>level: 1\<close> and \<^verbatim>\<open>nivel: 2\<close> (no
  \<^verbatim>\<open>floor\<close>) is on floor 2 for the source, while the order floor, level, nivel gives 1.
\<close>

theorem getRoomFloor_order_counterexample:
  "getRoomFloor exLevelNivel = 2 \<and> specFloor exLevelNivel = 1"
  by (simp add: getRoomFloor_def jsOr_def truthyNum_def specFloor_def exLevelNivel_def)

text \<open>
  Claim C3 (as amended). The centroid of a room is the arithmetic mean of the centroids of its
  member features, each member counting once whatever its number of vertices; the centroid of
  a member is the mean of the vertices of its outer ring, and \<open>(0, 0)\<close> when that ring is
  empty.
\<close>

theorem room_centroid_mean_of_feature_centroids:
  assumes "groupRoomsByName features = Inr roomGroups" and "(key, r) \<in> set roomGroups"
  shows "\<exists>rings. map (\<lambda>f. outerRing (geometry f)) (r_features r) = map Inr rings \<and> rings \<noteq> [] \<and>
           r_centroid r = meanPoint (map (\<lambda>ring. if ring = [] then (0, 0) else meanPoint ring) rings)"
proof -
  from list_all2_rhs_memD[OF groupRoomsByName_rel[OF assms(1)] assms(2)]
  obtain kg where kg: "kg \<in> set (groupFeatures features)" "finishGroup kg = Inr (key, r)"
    by blast
  obtain k n fl ms where e: "kg = (k, n, fl, ms)" by (cases kg) auto
  from finishGroup_Inr[of k n fl ms "(key, r)"] kg e
  obtain cs where cs: "mapM getCentroid ms = Inr cs"
    and r: "r = \<lparr>r_name = n, r_floor = fl, r_features = ms, r_centroid = avgCentroid cs\<rparr>"
    by auto
  have mem: "(k, n, fl, ms) \<in> set (groupFeatures features)" using kg e by simp
  from groupFeatures_members_nonempty[OF mem] have ne: "ms \<noteq> []" by blast
  from mapM_getCentroid[OF cs] obtain rings where
    rings: "map (\<lambda>f. outerRing (geometry f)) ms = map Inr rings" "cs = map centroidOfCoords rings"
    by blast
  from rings(1) ne have "rings \<noteq> []" by auto
  moreover have "r_centroid r =
      meanPoint (map (\<lambda>ring. if ring = [] then (0, 0) else meanPoint ring) rings)"
    using r rings(2) by (simp add: avgCentroid_mean centroidOfCoords_mean cong: map_cong)
  ultimately show ?thesis using r rings(1) by auto
qed

theorem room_centroid_mean_of_feature_centroids_witness:
  "groupRoomsByName exTwoParts =
     Inr [(''A_F0'', \<lparr>r_name = ''A'', r_floor = 0, r_features = exTwoParts, r_centroid = (5 / 2, 0)\<rparr>)] \<and>
   (\<exists>rings. map (\<lambda>f. outerRing (geometry f)) exTwoParts = map Inr rings \<and> rings \<noteq> [] \<and>
      (5 / 2, 0) = meanPoint (map (\<lambda>ring. if ring = [] then (0, 0) else meanPoint ring) rings))"
proof -
  have e: "groupRoomsByName exTwoParts =
     Inr [(''A_F0'', \<lparr>r_name = ''A'', r_floor = 0, r_features = exTwoParts, r_centroid = (5 / 2, 0)\<rparr>)]"
    by code_simp
  from room_centroid_mean_of_feature_centroids[OF e, of "''A_F0''"
      "\<lparr>r_name = ''A'', r_floor = 0, r_features = exTwoParts, r_centroid = (5 / 2, 0)\<rparr>"]
  show ?thesis using e by simp
qed

text \<open>
  Claim C3 as stated fails: for a room made of a two-vertex polygon ring \<open>(0,0), (2,0)\<close> and a
  one-vertex line \<open>(4,0)\<close> the source yields \<open>(5/2, 0)\<close>, the mean of the two member
  centroids \<open>(1,0)\<close> and \<open>(4,0)\<close>, while the mean of all three vertices is \<open>(2, 0)\<close>.
\<close>

theorem room_centroid_pooled_counterexample:
  "groupRoomsByName exTwoParts =
     Inr [(''A_F0'', \<lparr>r_name = ''A'', r_floor = 0, r_features = exTwoParts, r_centroid = (5 / 2, 0)\<rparr>)] \<and>
   specCentroid exTwoParts = (2, 0)"
  by code_simp



subsection \<open>Graph builder\<close>

lemma foldl_mapSet_distinct:
  "distinct (map k rs) \<Longrightarrow> foldl (\<lambda>g r. mapSet g (k r) (v r)) [] rs = map (\<lambda>r. (k r, v r)) rs"
proof (induction rs rule: rev_induct)
  case Nil
  show ?case by simp
next
  case (snoc r rs)
  then have "k r \<notin> set (map k rs)" by simp
  then have "\<not> mapHas (map (\<lambda>r. (k r, v r)) rs) (k r)"
    by (simp add: mapHas_def image_image)
  with snoc show ?case by (simp add: mapSet_def)
qed

lemma map_of_keyed:
  "distinct (map k rs) \<Longrightarrow> r \<in> set rs \<Longrightarrow> map_of (map (\<lambda>r. (k r, v r)) rs) (k r) = Some (v r)"
  by (induction rs) (auto simp: image_iff)

lemma groupRoomsByName_keys:
  assumes "groupRoomsByName features = Inr roomGroups"
  shows "distinct (map fst roomGroups) \<and> map fst roomGroups = map roomKeyOf (map snd roomGroups)"
proof -
  let ?G = "groupFeatures features"
  from groupRoomsByName_shape[OF assms]
  have sh: "map (\<lambda>(key, r). (key, r_name r, r_floor r, r_features r)) roomGroups = ?G" .
  have "groupInv features ?G" by (rule groupInv_groupFeatures)
  then have d: "distinct (map fst ?G)" by (simp add: groupInv_def)
  have "map fst (map (\<lambda>(key, r). (key, r_name r, r_floor r, r_features r)) roomGroups) =
          map fst roomGroups" by (simp add: comp_def case_prod_beta)
  with sh have f: "map fst ?G = map fst roomGroups" by simp
  have "key = roomKeyOf r" if "(key, r) \<in> set roomGroups" for key r
  proof -
    from that have "(key, r_name r, r_floor r, r_features r) \<in>
        set (map (\<lambda>(key, r). (key, r_name r, r_floor r, r_features r)) roomGroups)" by force
    with sh have "(key, r_name r, r_floor r, r_features r) \<in> set ?G" by simp
    from groupFeatures_members_nonempty[OF this] show ?thesis by (simp add: roomKeyOf_def)
  qed
  then have e: "map fst roomGroups = map roomKeyOf (map snd roomGroups)" by auto
  from d f have "distinct (map fst roomGroups)" by simp
  with e show ?thesis by blast
qed

lemma filteredRooms_distinct:
  assumes "groupRoomsByName features = Inr roomGroups"
  shows "distinct (map roomKeyOf (filteredRooms roomGroups targetFloor))"
proof -
  from groupRoomsByName_keys[OF assms] have d: "distinct (map fst roomGroups)"
    and e: "map fst roomGroups = map roomKeyOf (map snd roomGroups)" by blast+
  from d have "distinct (map roomKeyOf (map snd roomGroups))" unfolding e .
  then show ?thesis
    by (auto simp: filteredRooms_def Let_def distinct_map_filter split: option.splits)
qed

lemma buildRoomGraph_alist:
  assumes "distinct (map roomKeyOf (filteredRooms roomGroups targetFloor))"
  shows "buildRoomGraph roomGroups targetFloor =
         map (\<lambda>r. (roomKeyOf r, graphNode (filteredRooms roomGroups targetFloor) r))
           (filteredRooms roomGroups targetFloor)"
  using foldl_mapSet_distinct[OF assms, of "graphNode (filteredRooms roomGroups targetFloor)"]
  by (simp add: buildRoomGraph_def Let_def roomKeyOf_def)

lemma neighborOf_key: "neighborOf room other = Some nb \<Longrightarrow> n_key nb = roomKeyOf other"
  by (auto simp: neighborOf_def Let_def roomKeyOf_def split: if_splits prod.splits)

lemma neighbor_keys:
  assumes "distinct (map roomKeyOf rooms)" "other \<in> set rooms"
  shows "nb \<in> set (List.map_filter (neighborOf room) rooms) \<and> n_key nb = roomKeyOf other \<longleftrightarrow>
         neighborOf room other = Some nb"
proof
  assume "nb \<in> set (List.map_filter (neighborOf room) rooms) \<and> n_key nb = roomKeyOf other"
  then obtain o' where o': "o' \<in> set rooms" "neighborOf room o' = Some nb" and k: "n_key nb = roomKeyOf other"
    by (auto simp: List.map_filter_def)
  from neighborOf_key[OF o'(2)] k have "roomKeyOf o' = roomKeyOf other" by simp
  with assms o'(1) have "o' = other" by (meson distinct_map inj_onD)
  with o'(2) show "neighborOf room other = Some nb" by simp
next
  assume "neighborOf room other = Some nb"
  with assms(2) neighborOf_key[OF this]
  show "nb \<in> set (List.map_filter (neighborOf room) rooms) \<and> n_key nb = roomKeyOf other"
    by (force simp: List.map_filter_def)
qed

lemma graph_lookup:
  assumes "groupRoomsByName features = Inr roomGroups"
    and "room \<in> set (filteredRooms roomGroups targetFloor)"
  shows "map_of (buildRoomGraph roomGroups targetFloor) (roomKeyOf room) =
         Some (graphNode (filteredRooms roomGroups targetFloor) room)"
  using map_of_keyed[OF filteredRooms_distinct[OF assms(1)] assms(2)]
  by (simp add: buildRoomGraph_alist[OF filteredRooms_distinct[OF assms(1)]])

lemma edge_iff_neighborOf:
  assumes "groupRoomsByName features = Inr roomGroups"
    and "room \<in> set (filteredRooms roomGroups targetFloor)"
    and "otherRoom \<in> set (filteredRooms roomGroups targetFloor)"
  shows "map_of (buildRoomGraph roomGroups targetFloor) (roomKeyOf room) = Some nd \<and>
         nb \<in> set (nd_neighbors nd) \<and> n_key nb = roomKeyOf otherRoom \<longleftrightarrow>
         nd = graphNode (filteredRooms roomGroups targetFloor) room \<and> neighborOf room otherRoom = Some nb"
  using graph_lookup[OF assms(1,2)] neighbor_keys[OF filteredRooms_distinct[OF assms(1)] assms(3), of nb room]
  by (auto simp: graphNode_def)

lemma distance_same_lat: "distance (x1, y) (x2, y) = \<bar>x1 - x2\<bar>"
  by (simp add: distance_def)

lemma neighborOf_sameFloor:
  assumes "r_name room \<noteq> r_name other" "r_floor room = r_floor other"
  shows "neighborOf room other =
     (if 0 < distance (r_centroid room) (r_centroid other) \<and>
         distance (r_centroid room) (r_centroid other) <
           sameFloorThreshold (isCorridor (r_name room)) (isCorridor (r_name other))
      then Some \<lparr>n_key = roomKeyOf other, n_name = r_name other, n_floor = r_floor other,
                 n_distance = distance (r_centroid room) (r_centroid other) *
                    sameFloorMultiplier (isCorridor (r_name room)) (isCorridor (r_name other)),
                 n_isCorridor = isCorridor (r_name other)\<rparr>
      else None)"
  using assms
  by (auto simp: neighborOf_def Let_def sameFloorThreshold_def sameFloorMultiplier_def roomKeyOf_def)

lemma neighborOf_crossFloor:
  assumes "\<bar>r_floor room - r_floor other\<bar> = 1"
  shows "neighborOf room other =
     (if (isVerticalConnector (r_name room) \<or> isVerticalConnector (r_name other)) \<and>
         0 < distance (r_centroid room) (r_centroid other) \<and>
         distance (r_centroid room) (r_centroid other) < 2 / 100
      then Some \<lparr>n_key = roomKeyOf other, n_name = r_name other, n_floor = r_floor other,
                 n_distance = distance (r_centroid room) (r_centroid other) * 2,
                 n_isCorridor = isCorridor (r_name other)\<rparr>
      else None)"
proof -
  from assms have "r_floor room \<noteq> r_floor other" by auto
  with assms show ?thesis
    by (auto simp: neighborOf_def Let_def roomKeyOf_def)
qed

lemma distinct_rooms_names:
  assumes "groupRoomsByName features = Inr roomGroups"
    and "room \<in> set (filteredRooms roomGroups targetFloor)"
    and "otherRoom \<in> set (filteredRooms roomGroups targetFloor)"
    and "room \<noteq> otherRoom" and "r_floor room = r_floor otherRoom"
  shows "r_name room \<noteq> r_name otherRoom"
proof
  assume "r_name room = r_name otherRoom"
  with assms(5) have "roomKeyOf room = roomKeyOf otherRoom" by (simp add: roomKeyOf_def)
  with filteredRooms_distinct[OF assms(1), of targetFloor] assms(2,3)
  have "room = otherRoom" by (meson distinct_map inj_onD)
  with assms(4) show False by simp
qed

text \<open>
  Claim C4 (as amended). For rooms of the map built by grouping, both navigable (and on the
  target floor when one is given), distinct and on the same floor: the node of the first room
  has a neighbour entry for the second exactly when their centroid distance \<open>d\<close> satisfies
  \<open>0 < d\<close> and \<open>d < threshold\<close>, where the threshold is 0.05 for corridor-corridor, 0.03 when
  exactly one of the two is a corridor and 0.015 for two regular rooms; the weight of that
  entry is \<open>d\<close> times 0.8, 0.9 and 1.2 respectively; and the thresholds are strictly ordered.
\<close>

theorem sameFloor_edge:
  assumes "groupRoomsByName features = Inr roomGroups"
    and "room \<in> set (filteredRooms roomGroups targetFloor)"
    and "otherRoom \<in> set (filteredRooms roomGroups targetFloor)"
    and "room \<noteq> otherRoom" and "r_floor room = r_floor otherRoom"
  shows "\<exists>nd. map_of (buildRoomGraph roomGroups targetFloor) (roomKeyOf room) = Some nd \<and>
      ((\<exists>nb \<in> set (nd_neighbors nd). n_key nb = roomKeyOf otherRoom) \<longleftrightarrow>
         0 < distance (r_centroid room) (r_centroid otherRoom) \<and>
         distance (r_centroid room) (r_centroid otherRoom) <
           sameFloorThreshold (isCorridor (r_name room)) (isCorridor (r_name otherRoom))) \<and>
      (\<forall>nb \<in> set (nd_neighbors nd). n_key nb = roomKeyOf otherRoom \<longrightarrow>
         n_distance nb = distance (r_centroid room) (r_centroid otherRoom) *
            sameFloorMultiplier (isCorridor (r_name room)) (isCorridor (r_name otherRoom))) \<and>
      sameFloorThreshold False False < sameFloorThreshold True False \<and>
      sameFloorThreshold True False = sameFloorThreshold False True \<and>
      sameFloorThreshold False True < sameFloorThreshold True True"
proof -
  have t: "sameFloorThreshold False False < sameFloorThreshold True False \<and>
      sameFloorThreshold True False = sameFloorThreshold False True \<and>
      sameFloorThreshold False True < sameFloorThreshold True True"
    by (simp add: sameFloorThreshold_def)
  let ?nd = "graphNode (filteredRooms roomGroups targetFloor) room"
  have l: "map_of (buildRoomGraph roomGroups targetFloor) (roomKeyOf room) = Some ?nd"
    by (rule graph_lookup[OF assms(1,2)])
  have nm: "r_name room \<noteq> r_name otherRoom" by (rule distinct_rooms_names[OF assms])
  have e: "nb \<in> set (nd_neighbors ?nd) \<and> n_key nb = roomKeyOf otherRoom \<longleftrightarrow>
           neighborOf room otherRoom = Some nb" for nb
    using edge_iff_neighborOf[OF assms(1,2,3), of ?nd nb] l by simp
  have a: "(\<exists>nb \<in> set (nd_neighbors ?nd). n_key nb = roomKeyOf otherRoom) \<longleftrightarrow>
         0 < distance (r_centroid room) (r_centroid otherRoom) \<and>
         distance (r_centroid room) (r_centroid otherRoom) <
           sameFloorThreshold (isCorridor (r_name room)) (isCorridor (r_name otherRoom))"
  proof -
    have "(\<exists>nb \<in> set (nd_neighbors ?nd). n_key nb = roomKeyOf otherRoom) \<longleftrightarrow>
          (\<exists>nb. neighborOf room otherRoom = Some nb)" using e by blast
    then show ?thesis by (simp add: neighborOf_sameFloor[OF nm assms(5)])
  qed
  have b: "n_distance nb = distance (r_centroid room) (r_centroid otherRoom) *
            sameFloorMultiplier (isCorridor (r_name room)) (isCorridor (r_name otherRoom))"
    if "nb \<in> set (nd_neighbors ?nd)" "n_key nb = roomKeyOf otherRoom" for nb
  proof -
    from that e have "neighborOf room otherRoom = Some nb" by blast
    then show ?thesis by (auto simp: neighborOf_sameFloor[OF nm assms(5)] split: if_splits)
  qed
  from l a b t show ?thesis by blast
qed

text \<open>
  Claim C2 (as amended). For rooms of the graph whose floors differ by exactly 1, the node of
  the first has a neighbour entry for the second exactly when at least one of the two names
  satisfies \<^verbatim>\<open>isVerticalConnector\<close> (whose keywords are stair, escada, elevador, elevator,
  corredor, corridor, hallway, lobby) and the centroid distance \<open>d\<close> satisfies \<open>0 < d < 0.02\<close>;
  the weight of that entry is \<open>2 * d\<close>.
\<close>

theorem crossFloor_edge:
  assumes "groupRoomsByName features = Inr roomGroups"
    and "room \<in> set (filteredRooms roomGroups targetFloor)"
    and "otherRoom \<in> set (filteredRooms roomGroups targetFloor)"
    and "\<bar>r_floor room - r_floor otherRoom\<bar> = 1"
  shows "\<exists>nd. map_of (buildRoomGraph roomGroups targetFloor) (roomKeyOf room) = Some nd \<and>
      ((\<exists>nb \<in> set (nd_neighbors nd). n_key nb = roomKeyOf otherRoom) \<longleftrightarrow>
         (isVerticalConnector (r_name room) \<or> isVerticalConnector (r_name otherRoom)) \<and>
         0 < distance (r_centroid room) (r_centroid otherRoom) \<and>
         distance (r_centroid room) (r_centroid otherRoom) < 2 / 100) \<and>
      (\<forall>nb \<in> set (nd_neighbors nd). n_key nb = roomKeyOf otherRoom \<longrightarrow>
         n_distance nb = distance (r_centroid room) (r_centroid otherRoom) * 2)"
proof -
  let ?nd = "graphNode (filteredRooms roomGroups targetFloor) room"
  have l: "map_of (buildRoomGraph roomGroups targetFloor) (roomKeyOf room) = Some ?nd"
    by (rule graph_lookup[OF assms(1,2)])
  have e: "nb \<in> set (nd_neighbors ?nd) \<and> n_key nb = roomKeyOf otherRoom \<longleftrightarrow>
           neighborOf room otherRoom = Some nb" for nb
    using edge_iff_neighborOf[OF assms(1,2,3), of ?nd nb] l by simp
  have a: "(\<exists>nb \<in> set (nd_neighbors ?nd). n_key nb = roomKeyOf otherRoom) \<longleftrightarrow>
         (isVerticalConnector (r_name room) \<or> isVerticalConnector (r_name otherRoom)) \<and>
         0 < distance (r_centroid room) (r_centroid otherRoom) \<and>
         distance (r_centroid room) (r_centroid otherRoom) < 2 / 100"
  proof -
    have "(\<exists>nb \<in> set (nd_neighbors ?nd). n_key nb = roomKeyOf otherRoom) \<longleftrightarrow>
          (\<exists>nb. neighborOf room otherRoom = Some nb)" using e by blast
    then show ?thesis by (simp add: neighborOf_crossFloor[OF assms(4)])
  qed
  have b: "n_distance nb = distance (r_centroid room) (r_centroid otherRoom) * 2"
    if "nb \<in> set (nd_neighbors ?nd)" "n_key nb = roomKeyOf otherRoom" for nb
  proof -
    from that e have "neighborOf room otherRoom = Some nb" by blast
    then show ?thesis by (auto simp: neighborOf_crossFloor[OF assms(4)] split: if_splits)
  qed
  from l a b show ?thesis by blast
qed

lemma exLobbyOffice_groups:
  "groupRoomsByName exLobbyOffice = Inr [(''Lobby_F1'', exLobby), (''Office_F2'', exOffice2)]"
  by code_simp

lemma exHallOffice_groups:
  "groupRoomsByName exHallOffice = Inr [(''Hall_F1'', exHall), (''Office_F1'', exOffice1)]"
  by code_simp

lemma exCoincident_groups:
  "groupRoomsByName exCoincident = Inr [(''A_F1'', exRoomA), (''B_F1'', exRoomB)]"
  by code_simp

lemma ex_names:
  "isNavigableRoom ''Lobby''" "isNavigableRoom ''Office''" "isNavigableRoom ''Hall''"
  "isNavigableRoom ''A''" "isNavigableRoom ''B''"
  "isCorridor ''Lobby''" "\<not> isCorridor ''Office''" "isCorridor ''Hall''"
  "\<not> isCorridor ''A''" "\<not> isCorridor ''B''"
  "isVerticalConnector ''Lobby''" "\<not> isVerticalConnector ''Office''"
  "\<not> specVerticalConnector ''Lobby''" "\<not> specVerticalConnector ''Office''"
  by code_simp+

lemma ex_keys:
  "roomKey ''Lobby'' 1 = ''Lobby_F1''" "roomKey ''Office'' 2 = ''Office_F2''"
  "roomKey ''Hall'' 1 = ''Hall_F1''" "roomKey ''Office'' 1 = ''Office_F1''"
  "roomKey ''A'' 1 = ''A_F1''" "roomKey ''B'' 1 = ''B_F1''"
  by code_simp+

theorem sameFloor_edge_witness:
  "groupRoomsByName exHallOffice = Inr [(''Hall_F1'', exHall), (''Office_F1'', exOffice1)] \<and>
   (\<exists>nd. map_of (buildRoomGraph [(''Hall_F1'', exHall), (''Office_F1'', exOffice1)] None) ''Hall_F1'' = Some nd \<and>
      (\<exists>nb \<in> set (nd_neighbors nd). n_key nb = ''Office_F1'' \<and> n_distance nb = 2 / 100 * (9 / 10)))"
proof -
  let ?G = "[(''Hall_F1'', exHall), (''Office_F1'', exOffice1)]"
  have fr: "filteredRooms ?G None = [exHall, exOffice1]"
    by (simp add: filteredRooms_def exHall_def exOffice1_def mkRoom_def ex_names)
  have m1: "exHall \<in> set (filteredRooms ?G None)" and m2: "exOffice1 \<in> set (filteredRooms ?G None)"
    by (simp_all add: fr)
  have neq: "exHall \<noteq> exOffice1" by (simp add: exHall_def exOffice1_def mkRoom_def)
  have fl: "r_floor exHall = r_floor exOffice1" by (simp add: exHall_def exOffice1_def mkRoom_def)
  have k: "roomKeyOf exHall = ''Hall_F1''" "roomKeyOf exOffice1 = ''Office_F1''"
    by (simp_all add: roomKeyOf_def exHall_def exOffice1_def mkRoom_def ex_keys)
  have d: "distance (r_centroid exHall) (r_centroid exOffice1) = 2 / 100"
    by (simp add: exHall_def exOffice1_def mkRoom_def distance_same_lat)
  have c: "isCorridor (r_name exHall)" "\<not> isCorridor (r_name exOffice1)"
    by (simp_all add: exHall_def exOffice1_def mkRoom_def ex_names)
  from sameFloor_edge[OF exHallOffice_groups m1 m2 neq fl]
  show ?thesis
    by (simp add: exHallOffice_groups k d c sameFloorThreshold_def sameFloorMultiplier_def) blast
qed

text \<open>
  Claim C4 as stated fails at distance zero: two regular rooms \<open>A\<close> and \<open>B\<close> of floor 1 whose
  centroids coincide are below the threshold 0.015, and the source (guard \<^verbatim>\<open>dist > 0\<close>) creates
  no edge between them.
\<close>

theorem sameFloor_edge_zero_distance_counterexample:
  "groupRoomsByName exCoincident = Inr [(''A_F1'', exRoomA), (''B_F1'', exRoomB)] \<and>
   map (\<lambda>(k, nd). (k, map n_key (nd_neighbors nd)))
     (buildRoomGraph [(''A_F1'', exRoomA), (''B_F1'', exRoomB)] None) = [(''A_F1'', []), (''B_F1'', [])] \<and>
   distance (r_centroid exRoomA) (r_centroid exRoomB) <
     sameFloorThreshold (isCorridor (r_name exRoomA)) (isCorridor (r_name exRoomB))"
  by (simp add: exCoincident_groups buildRoomGraph_def filteredRooms_def graphNode_def
      neighborOf_def exRoomA_def exRoomB_def mkRoom_def ex_names ex_keys mapSet_def mapHas_def
      List.map_filter_def distance_same_lat sameFloorThreshold_def)

theorem crossFloor_edge_witness:
  "groupRoomsByName exLobbyOffice = Inr [(''Lobby_F1'', exLobby), (''Office_F2'', exOffice2)] \<and>
   (\<exists>nd. map_of (buildRoomGraph [(''Lobby_F1'', exLobby), (''Office_F2'', exOffice2)] None) ''Lobby_F1'' = Some nd \<and>
      (\<exists>nb \<in> set (nd_neighbors nd). n_key nb = ''Office_F2'' \<and> n_distance nb = 1 / 100 * 2))"
proof -
  let ?G = "[(''Lobby_F1'', exLobby), (''Office_F2'', exOffice2)]"
  have fr: "filteredRooms ?G None = [exLobby, exOffice2]"
    by (simp add: filteredRooms_def exLobby_def exOffice2_def mkRoom_def ex_names)
  have m1: "exLobby \<in> set (filteredRooms ?G None)" and m2: "exOffice2 \<in> set (filteredRooms ?G None)"
    by (simp_all add: fr)
  have fl: "\<bar>r_floor exLobby - r_floor exOffice2\<bar> = 1" by (simp add: exLobby_def exOffice2_def mkRoom_def)
  have k: "roomKeyOf exLobby = ''Lobby_F1''" "roomKeyOf exOffice2 = ''Office_F2''"
    by (simp_all add: roomKeyOf_def exLobby_def exOffice2_def mkRoom_def ex_keys)
  have d: "distance (r_centroid exLobby) (r_centroid exOffice2) = 1 / 100"
    by (simp add: exLobby_def exOffice2_def mkRoom_def distance_same_lat)
  have c: "isVerticalConnector (r_name exLobby)"
    by (simp_all add: exLobby_def mkRoom_def ex_names)
  from crossFloor_edge[OF exLobbyOffice_groups m1 m2 fl]
  show ?thesis
    by (simp add: exLobbyOffice_groups k d c) blast
qed

text \<open>
  Claim C2 as stated fails: a room named Lobby on floor 1 and a room named Office on floor 2,
  0.01 apart, are connected in both directions with weight 0.02, although neither name
  contains stair, escada, elevador, elevator or lift.
\<close>

theorem crossFloor_edge_lobby_counterexample:
  "groupRoomsByName exLobbyOffice = Inr [(''Lobby_F1'', exLobby), (''Office_F2'', exOffice2)] \<and>
   map (\<lambda>(k, nd). (k, map (\<lambda>nb. (n_key nb, n_distance nb)) (nd_neighbors nd)))
     (buildRoomGraph [(''Lobby_F1'', exLobby), (''Office_F2'', exOffice2)] None) =
     [(''Lobby_F1'', [(''Office_F2'', 2 / 100)]), (''Office_F2'', [(''Lobby_F1'', 2 / 100)])] \<and>
   \<not> specVerticalConnector ''Lobby'' \<and> \<not> specVerticalConnector ''Office''"
  by (simp add: exLobbyOffice_groups buildRoomGraph_def filteredRooms_def graphNode_def
      neighborOf_def exLobby_def exOffice2_def mkRoom_def ex_names ex_keys mapSet_def mapHas_def
      List.map_filter_def distance_same_lat)

subsection \<open>Route statistics\<close>

lemma foldl_upt_Suc: "1 \<le> k \<Longrightarrow> foldl f a [1..<Suc k] = f (foldl f a [1..<k]) k"
  by simp

lemma atan2_pos: "0 < x \<Longrightarrow> atan2 y x = arctan (y / x)"
  by (simp add: atan2_def)

lemma atan2_sin_cos:
  assumes "0 \<le> t" "t < pi / 2"
  shows "atan2 (sin t) (cos t) = t"
proof -
  from assms have c: "0 < cos t" by (simp add: cos_gt_zero_pi)
  have "arctan (sin t / cos t) = arctan (tan t)" by (simp add: tan_def)
  also have "\<dots> = t" using assms by (simp add: arctan_tan)
  finally show ?thesis using c by (simp add: atan2_pos)
qed

lemma haversine_angle:
  assumes "\<bar>t\<bar> < pi / 2"
  shows "atan2 (sqrt (sin t * sin t)) (sqrt (1 - sin t * sin t)) = \<bar>t\<bar>"
proof -
  have s: "sqrt (sin t * sin t) = sin \<bar>t\<bar>"
  proof (cases "0 \<le> t")
    case True
    with assms have "0 \<le> sin t" by (simp add: sin_ge_zero)
    with True show ?thesis by simp
  next
    case False
    with assms have "0 \<le> sin (- t)" by (intro sin_ge_zero) auto
    with False show ?thesis by (simp add: abs_if)
  qed
  have "1 - sin t * sin t = cos t * cos t"
    using sin_cos_squared_add[of t] by (simp add: power2_eq_square algebra_simps)
  moreover have "0 < cos t" using assms by (intro cos_gt_zero_pi) auto
  ultimately have c: "sqrt (1 - sin t * sin t) = cos \<bar>t\<bar>" by (simp add: abs_if)
  show ?thesis unfolding s c using assms by (intro atan2_sin_cos) auto
qed

lemma calculateDistance_meridian:
  assumes "\<bar>lat2 - lat1\<bar> < 180"
  shows "calculateDistance (lon, lat1) (lon, lat2) = 6371000 * (\<bar>lat2 - lat1\<bar> * pi / 180)"
proof -
  let ?t = "(lat2 - lat1) * pi / 180 / 2"
  have "\<bar>?t\<bar> = \<bar>lat2 - lat1\<bar> * pi / 360" by (simp add: abs_mult)
  moreover from assms have "\<bar>lat2 - lat1\<bar> * pi / 360 < 180 * pi / 360" by simp
  ultimately have t: "\<bar>?t\<bar> < pi / 2" by simp
  have "calculateDistance (lon, lat1) (lon, lat2) =
        6371000 * (2 * atan2 (sqrt (sin ?t * sin ?t)) (sqrt (1 - sin ?t * sin ?t)))"
    by (simp add: calculateDistance_def Let_def)
  also have "\<dots> = 6371000 * (2 * \<bar>?t\<bar>)" by (simp only: haversine_angle[OF t])
  also have "\<dots> = 6371000 * (\<bar>lat2 - lat1\<bar> * pi / 180)" by (simp add: abs_mult)
  finally show ?thesis .
qed

lemma calculateDistance_equator:
  assumes "\<bar>lon2 - lon1\<bar> < 180"
  shows "calculateDistance (lon1, 0) (lon2, 0) = 6371000 * (\<bar>lon2 - lon1\<bar> * pi / 180)"
proof -
  let ?t = "(lon2 - lon1) * pi / 180 / 2"
  have "\<bar>?t\<bar> = \<bar>lon2 - lon1\<bar> * pi / 360" by (simp add: abs_mult)
  moreover from assms have "\<bar>lon2 - lon1\<bar> * pi / 360 < 180 * pi / 360" by simp
  ultimately have t: "\<bar>?t\<bar> < pi / 2" by simp
  have "calculateDistance (lon1, 0) (lon2, 0) =
        6371000 * (2 * atan2 (sqrt (sin ?t * sin ?t)) (sqrt (1 - sin ?t * sin ?t)))"
    by (simp add: calculateDistance_def Let_def)
  also have "\<dots> = 6371000 * (2 * \<bar>?t\<bar>)" by (simp only: haversine_angle[OF t])
  also have "\<dots> = 6371000 * (\<bar>lon2 - lon1\<bar> * pi / 180)" by (simp add: abs_mult)
  finally show ?thesis .
qed

lemma exTenMetres_distance: "calculateDistance (0, 0) (0, 1800 / (6371000 * pi)) = 10"
proof -
  have "1800 / (6371000 * pi) \<le> 1800 / (6371000 * 2)"
    using pi_ge_two by (intro divide_left_mono) auto
  then have "\<bar>1800 / (6371000 * pi) - 0\<bar> < 180" by simp
  from calculateDistance_meridian[OF this] show ?thesis by simp
qed

text \<open>\<^verbatim>\<open>calculateDistance\<close> is the haversine distance on a sphere of radius 6371000.\<close>

lemma abs_mult_le_half_squares: "\<bar>x * y\<bar> \<le> (x\<^sup>2 + y\<^sup>2) / (2::real)"
proof -
  have "0 \<le> (\<bar>x\<bar> - \<bar>y\<bar>)\<^sup>2" by simp
  also have "(\<bar>x\<bar> - \<bar>y\<bar>)\<^sup>2 = x\<^sup>2 + y\<^sup>2 - 2 * \<bar>x * y\<bar>"
    by (simp add: power2_diff abs_mult)
  finally show ?thesis by simp
qed

lemma half_sums: "sa + ca = 1 \<Longrightarrow> sb + cb = 1 \<Longrightarrow> (sa + sb) / 2 + (ca + cb) / 2 = (1::real)"
  by (simp add: add_divide_distrib[symmetric])

lemma spherical_cosine_bound:
  fixes k :: real
  assumes "\<bar>k\<bar> \<le> 1"
  shows "\<bar>sin a * sin b + cos a * cos b * k\<bar> \<le> 1"
proof -
  have "\<bar>cos a * cos b * k\<bar> = \<bar>cos a * cos b\<bar> * \<bar>k\<bar>" by (simp add: abs_mult)
  also have "\<dots> \<le> \<bar>cos a * cos b\<bar> * 1" using assms by (intro mult_left_mono) auto
  finally have c: "\<bar>cos a * cos b * k\<bar> \<le> ((cos a)\<^sup>2 + (cos b)\<^sup>2) / 2"
    using abs_mult_le_half_squares[of "cos a" "cos b"] by simp
  have s: "\<bar>sin a * sin b\<bar> \<le> ((sin a)\<^sup>2 + (sin b)\<^sup>2) / 2"
    by (rule abs_mult_le_half_squares)
  have "\<bar>sin a * sin b + cos a * cos b * k\<bar> \<le> \<bar>sin a * sin b\<bar> + \<bar>cos a * cos b * k\<bar>"
    by (rule abs_triangle_ineq)
  also have "\<dots> \<le> ((sin a)\<^sup>2 + (sin b)\<^sup>2) / 2 + ((cos a)\<^sup>2 + (cos b)\<^sup>2) / 2"
    using s c by linarith
  also have "\<dots> = 1"
    by (rule half_sums[OF sin_cos_squared_add sin_cos_squared_add])
  finally show ?thesis .
qed

lemma sin_half_squared: "(sin (x / 2))\<^sup>2 = (1 - cos x) / (2::real)"
  using cos_double_sin[of "x / 2"] by simp

lemma haversine_term:
  "(sin ((b - a) / 2))\<^sup>2 + cos a * cos b * (sin (l / 2))\<^sup>2 =
   (1 - (sin a * sin b + cos a * cos b * cos l)) / (2::real)"
proof -
  have e1: "(sin ((b - a) / 2))\<^sup>2 = (1 - (cos b * cos a + sin b * sin a)) / 2"
    by (simp only: sin_half_squared cos_diff)
  have e2: "(sin (l / 2))\<^sup>2 = (1 - cos l) / 2" by (rule sin_half_squared)
  show ?thesis unfolding e1 e2 by (simp add: field_simps)
qed

lemma haversine_term_range:
  "0 \<le> (sin ((b - a) / 2))\<^sup>2 + cos a * cos b * (sin (l / 2))\<^sup>2 \<and>
   (sin ((b - a) / 2))\<^sup>2 + cos a * cos b * (sin (l / 2))\<^sup>2 \<le> (1::real)"
proof -
  have "\<bar>cos l\<bar> \<le> 1" by (rule abs_cos_le_one)
  from spherical_cosine_bound[OF this, of a b]
  have "- 1 \<le> sin a * sin b + cos a * cos b * cos l" "sin a * sin b + cos a * cos b * cos l \<le> 1"
    by (simp_all add: abs_le_iff)
  then show ?thesis unfolding haversine_term by simp
qed

lemma atan2_arcsin:
  assumes "0 \<le> h" "h \<le> 1"
  shows "atan2 (sqrt h) (sqrt (1 - h)) = arcsin (sqrt h)"
proof (cases "h = 1")
  case True
  then show ?thesis by (simp add: atan2_def)
next
  case False
  with assms have lt: "h < 1" by simp
  then have pos: "0 < sqrt (1 - h)" by simp
  from assms lt have x: "- 1 < sqrt h" "sqrt h < 1"
    by (auto intro: less_le_trans[of _ 0] simp: real_sqrt_lt_1_iff)
  from assms have sq: "(sqrt h)\<^sup>2 = h" by simp
  from arcsin_arctan[OF x] have "arcsin (sqrt h) = arctan (sqrt h / sqrt (1 - h))"
    by (simp only: sq)
  with pos show ?thesis by (simp add: atan2_pos)
qed

lemma calculateDistance_haversine: "calculateDistance p q = haversine 6371000 p q"
proof -
  let ?a = "radians (snd p)" and ?b = "radians (snd q)"
  let ?l = "radians (fst q) - radians (fst p)"
  let ?h = "(sin ((?b - ?a) / 2))\<^sup>2 + cos ?a * cos ?b * (sin (?l / 2))\<^sup>2"
  have d: "(snd q - snd p) * pi / 180 = ?b - ?a" "(fst q - fst p) * pi / 180 = ?l"
    by (simp_all add: radians_def left_diff_distrib diff_divide_distrib)
  have "calculateDistance p q = 6371000 * (2 * atan2 (sqrt ?h) (sqrt (1 - ?h)))"
    unfolding calculateDistance_def Let_def d
    by (simp add: power2_eq_square radians_def algebra_simps)
  also have "atan2 (sqrt ?h) (sqrt (1 - ?h)) = arcsin (sqrt ?h)"
    using haversine_term_range[of ?b ?a ?l] by (intro atan2_arcsin) simp_all
  finally show ?thesis by (simp add: haversine_def Let_def)
qed

text \<open>The loop of calculateRouteStats.\<close>

lemma statsLoop_Suc: "1 \<le> k \<Longrightarrow> statsLoop p (Suc k) = statsStep p (statsLoop p k) k"
  by (simp add: statsLoop_def)

lemma statsLoop_1: "statsLoop p (Suc 0) = \<lparr>ss_totalDistance = 0, ss_floorsSet = [], ss_floorChanges = 0\<rparr>"
  by (simp add: statsLoop_def)

lemma set_setAdd [simp]: "set (setAdd xs x) = insert x (set xs)"
  by (auto simp: setAdd_def)

lemma distinct_setAdd [simp]: "distinct (setAdd xs x) = distinct xs"
  by (auto simp: setAdd_def)

lemma statsLoop_inv:
  "1 \<le> k \<Longrightarrow>
   ss_totalDistance (statsLoop p k) =
     (\<Sum>i\<leftarrow>[1..<k]. calculateDistance (rp_coords (p ! (i - 1))) (rp_coords (p ! i))) \<and>
   ss_floorChanges (statsLoop p k) =
     length (filter (\<lambda>i. rp_floor (p ! i) \<noteq> rp_floor (p ! (i - 1))) [1..<k]) \<and>
   distinct (ss_floorsSet (statsLoop p k)) \<and>
   set (ss_floorsSet (statsLoop p k)) = (\<lambda>i. rp_floor (p ! i)) ` {1..<k}"
proof (induction k rule: nat_induct_at_least)
  case base
  show ?case by (simp add: statsLoop_1)
next
  case (Suc k)
  then show ?case
    by (simp add: statsLoop_Suc statsStep_def Let_def atLeastLessThanSuc)
qed

lemma sort_distinct: "distinct xs \<Longrightarrow> sort xs = sorted_list_of_set (set xs)"
  by (simp add: sorted_list_of_set_sort_remdups distinct_remdups_id)

lemma calculateRouteStats_unfold:
  "2 \<le> length p \<Longrightarrow>
   calculateRouteStats p =
     \<lparr>totalDistance = ss_totalDistance (statsLoop p (length p)),
      estimatedTime = ss_totalDistance (statsLoop p (length p)) / 1.4 +
                      real (ss_floorChanges (statsLoop p (length p))) * 30,
      floors = sort (setAdd (ss_floorsSet (statsLoop p (length p))) (rp_floor (p ! 0))),
      floorChanges = ss_floorChanges (statsLoop p (length p))\<rparr>"
  by (simp add: calculateRouteStats_def statsLoop_def Let_def)

lemma floors_of_path:
  assumes "2 \<le> length p"
  shows "insert (rp_floor (p ! 0)) ((\<lambda>i. rp_floor (p ! i)) ` {1..<length p}) = rp_floor ` set p"
proof -
  have "{0..<length p} = insert 0 {1..<length p}" using assms by auto
  then have "(\<lambda>i. rp_floor (p ! i)) ` {0..<length p} =
        insert (rp_floor (p ! 0)) ((\<lambda>i. rp_floor (p ! i)) ` {1..<length p})" by simp
  moreover have "set p = (\<lambda>i. p ! i) ` {0..<length p}" by (simp add: set_conv_nth image_def) auto
  then have "rp_floor ` set p = (\<lambda>i. rp_floor (p ! i)) ` {0..<length p}" by (simp add: image_image)
  ultimately show ?thesis by simp
qed

text \<open>
  Claim C9. For every path of at least 2 points, \<^verbatim>\<open>calculateRouteStats\<close> returns: as
  \<^verbatim>\<open>totalDistance\<close> the sum of the haversine distances (the formula \<open>haversine\<close> above, on a
  sphere of radius 6371000 m) of the consecutive pairs; as \<^verbatim>\<open>floorChanges\<close> the number of consecutive pairs
  whose floors differ; as \<^verbatim>\<open>estimatedTime\<close> the total distance divided by 1.4 plus 30 per
  floor change; as \<^verbatim>\<open>floors\<close> the ascending list of the distinct floors of the path. On a
  2-point, same-floor path whose points are exactly 10 m apart this gives an estimated time
  of 50/7 (within 0.01 of 7.14), no floor change and the single floor.
\<close>

theorem calculateRouteStats_spec:
  assumes "2 \<le> length routePath"
  shows "totalDistance (calculateRouteStats routePath) =
           (\<Sum>i\<leftarrow>[1..<length routePath].
              haversine 6371000 (rp_coords (routePath ! (i - 1))) (rp_coords (routePath ! i))) \<and>
         floorChanges (calculateRouteStats routePath) =
           length (filter (\<lambda>i. rp_floor (routePath ! i) \<noteq> rp_floor (routePath ! (i - 1)))
                     [1..<length routePath]) \<and>
         estimatedTime (calculateRouteStats routePath) =
           totalDistance (calculateRouteStats routePath) / 1.4 +
           real (floorChanges (calculateRouteStats routePath)) * 30 \<and>
         floors (calculateRouteStats routePath) = sorted_list_of_set (rp_floor ` set routePath) \<and>
         (length routePath = 2 \<and> rp_floor (routePath ! 0) = rp_floor (routePath ! 1) \<and>
          haversine 6371000 (rp_coords (routePath ! 0)) (rp_coords (routePath ! 1)) = 10 \<longrightarrow>
            estimatedTime (calculateRouteStats routePath) = 50 / 7 \<and>
            \<bar>estimatedTime (calculateRouteStats routePath) - 7.14\<bar> < 0.01 \<and>
            floorChanges (calculateRouteStats routePath) = 0 \<and>
            floors (calculateRouteStats routePath) = [rp_floor (routePath ! 0)])"
proof -
  let ?st = "statsLoop routePath (length routePath)"
  from assms have n: "1 \<le> length routePath" by simp
  note inv = statsLoop_inv[OF n, of routePath]
  note u = calculateRouteStats_unfold[OF assms]
  have td: "totalDistance (calculateRouteStats routePath) =
           (\<Sum>i\<leftarrow>[1..<length routePath].
              haversine 6371000 (rp_coords (routePath ! (i - 1))) (rp_coords (routePath ! i)))"
    using inv by (simp add: u calculateDistance_haversine)
  have fc: "floorChanges (calculateRouteStats routePath) =
           length (filter (\<lambda>i. rp_floor (routePath ! i) \<noteq> rp_floor (routePath ! (i - 1)))
                     [1..<length routePath])"
    using inv by (simp add: u)
  have et: "estimatedTime (calculateRouteStats routePath) =
           totalDistance (calculateRouteStats routePath) / 1.4 +
           real (floorChanges (calculateRouteStats routePath)) * 30"
    by (simp add: u)
  have fl: "floors (calculateRouteStats routePath) = sorted_list_of_set (rp_floor ` set routePath)"
  proof -
    let ?fs = "setAdd (ss_floorsSet ?st) (rp_floor (routePath ! 0))"
    from inv have d: "distinct ?fs" by simp
    from inv have "set ?fs = insert (rp_floor (routePath ! 0))
        ((\<lambda>i. rp_floor (routePath ! i)) ` {1..<length routePath})" by simp
    then have s: "set ?fs = rp_floor ` set routePath" by (simp only: floors_of_path[OF assms])
    have "sort ?fs = sorted_list_of_set (set ?fs)"
      using d by (rule sort_distinct)
    with s show ?thesis by (simp add: u)
  qed
  have ten: "estimatedTime (calculateRouteStats routePath) = 50 / 7 \<and>
            \<bar>estimatedTime (calculateRouteStats routePath) - 7.14\<bar> < 0.01 \<and>
            floorChanges (calculateRouteStats routePath) = 0 \<and>
            floors (calculateRouteStats routePath) = [rp_floor (routePath ! 0)]"
    if h: "length routePath = 2" "rp_floor (routePath ! 0) = rp_floor (routePath ! 1)"
       "haversine 6371000 (rp_coords (routePath ! 0)) (rp_coords (routePath ! 1)) = 10"
  proof -
    from h have l: "[1..<length routePath] = [1]" by (simp add: upt_rec)
    from td h l have t: "totalDistance (calculateRouteStats routePath) = 10" by simp
    from fc h l have c: "floorChanges (calculateRouteStats routePath) = 0" by simp
    from et t c have e: "estimatedTime (calculateRouteStats routePath) = 50 / 7" by simp
    from h obtain a b where ab: "routePath = [a, b]"
      by (metis One_nat_def Suc_1 length_0_conv length_Suc_conv)
    with h have "rp_floor ` set routePath = {rp_floor (routePath ! 0)}" by auto
    with fl have f: "floors (calculateRouteStats routePath) = [rp_floor (routePath ! 0)]" by simp
    from e c f show ?thesis by simp
  qed
  from td fc et fl ten show ?thesis by blast
qed

theorem calculateRouteStats_spec_witness:
  "2 \<le> length exTenMetres \<and>
   haversine 6371000 (rp_coords (exTenMetres ! 0)) (rp_coords (exTenMetres ! 1)) = 10 \<and>
   totalDistance (calculateRouteStats exTenMetres) = 10 \<and>
   estimatedTime (calculateRouteStats exTenMetres) = 50 / 7 \<and>
   floorChanges (calculateRouteStats exTenMetres) = 0 \<and>
   floors (calculateRouteStats exTenMetres) = [1]"
proof -
  have l: "2 \<le> length exTenMetres" "length exTenMetres = 2" by (simp_all add: exTenMetres_def)
  have d: "haversine 6371000 (rp_coords (exTenMetres ! 0)) (rp_coords (exTenMetres ! 1)) = 10"
    using exTenMetres_distance
    by (simp add: exTenMetres_def mkPoint_def calculateDistance_haversine[symmetric])
  have f: "rp_floor (exTenMetres ! 0) = rp_floor (exTenMetres ! 1)"
    by (simp add: exTenMetres_def mkPoint_def)
  have f1: "rp_floor (exTenMetres ! 0) = 1"
    by (simp add: exTenMetres_def mkPoint_def)
  have up: "[1..<length exTenMetres] = [1]" by (simp add: l(2) upt_rec)
  from calculateRouteStats_spec[OF l(1)] d
  have t: "totalDistance (calculateRouteStats exTenMetres) = 10"
    unfolding up by simp
  from calculateRouteStats_spec[OF l(1)] l(2) d f
  have "estimatedTime (calculateRouteStats exTenMetres) = 50 / 7 \<and>
        floorChanges (calculateRouteStats exTenMetres) = 0 \<and>
        floors (calculateRouteStats exTenMetres) = [rp_floor (exTenMetres ! 0)]"
    by blast
  with l(1) d f1 t show ?thesis by simp
qed

subsection \<open>Directions generator\<close>

lemma normalise_in_range:
  assumes "- 360 < d" "d < 360"
  shows "normUp (normDown d) = (if d > 180 then d - 360 else if d < - 180 then d + 360 else d)"
proof -
  have a: "normDown d = (if d > 180 then d - 360 else d)"
    using assms by (subst normDown.simps, subst normDown.simps) simp
  have b: "normUp e = (if e < - 180 then e + 360 else e)" if "- 360 < e" for e
    using that by (subst normUp.simps, subst normUp.simps) simp
  show ?thesis using assms by (simp add: a b)
qed

lemma calculateTurn_classify:
  assumes "0 \<le> b1" "b1 < 360" "0 \<le> b2" "b2 < 360"
  shows "calculateTurn b1 b2 = turnName (classify (signedDelta b1 b2)) (signedDelta b1 b2 > 0)"
proof -
  from assms have "- 360 < b2 - b1" "b2 - b1 < 360" by simp_all
  from normalise_in_range[OF this]
  have "normUp (normDown (b2 - b1)) = signedDelta b1 b2" by (simp add: signedDelta_def)
  then show ?thesis by (simp add: calculateTurn_def Let_def classify_def)
qed

lemma atan2_range: "- pi < atan2 y x \<and> atan2 y x \<le> pi"
proof -
  have a: "- (pi / 2) < arctan (y / x)" "arctan (y / x) < pi / 2"
    using arctan_lbound[of "y / x"] arctan_ubound[of "y / x"] by blast+
  have p: "0 < pi" by simp
  consider "0 < x" | "x < 0" "0 \<le> y" | "x < 0" "y < 0" | "x = 0" "0 < y" | "x = 0" "y < 0" | "x = 0" "y = 0"
    by linarith
  then show ?thesis
  proof cases
    case 1
    then have e: "atan2 y x = arctan (y / x)" by (simp add: atan2_def)
    show ?thesis unfolding e using a p by linarith
  next
    case 2
    then have "y / x \<le> 0" by (simp add: divide_nonneg_neg)
    then have z: "arctan (y / x) \<le> 0" by (simp add: arctan_le_zero_iff)
    from 2 have e: "atan2 y x = arctan (y / x) + pi" by (simp add: atan2_def)
    show ?thesis unfolding e using a p z by linarith
  next
    case 3
    then have "0 < y / x" by (simp add: divide_neg_neg)
    then have z: "0 < arctan (y / x)" by (simp add: zero_less_arctan_iff)
    from 3 have e: "atan2 y x = arctan (y / x) - pi" by (simp add: atan2_def)
    show ?thesis unfolding e using a p z by linarith
  next
    case 4
    then have e: "atan2 y x = pi / 2" by (simp add: atan2_def)
    show ?thesis unfolding e using p by linarith
  next
    case 5
    then have e: "atan2 y x = - (pi / 2)" by (simp add: atan2_def)
    show ?thesis unfolding e using p by linarith
  next
    case 6
    then have e: "atan2 y x = 0" by (simp add: atan2_def)
    show ?thesis unfolding e using p by linarith
  qed
qed

lemma jsRem_range:
  assumes "0 \<le> v"
  shows "0 \<le> jsRem v 360 \<and> jsRem v 360 < 360"
proof -
  from assms have q: "0 \<le> v / 360" by simp
  have "of_int \<lfloor>v / 360\<rfloor> \<le> v / 360" "v / 360 < of_int \<lfloor>v / 360\<rfloor> + 1" by linarith+
  then have "360 * of_int \<lfloor>v / 360\<rfloor> \<le> v" "v < 360 * of_int \<lfloor>v / 360\<rfloor> + 360" by linarith+
  with q show ?thesis by (simp add: jsRem_def)
qed

lemma calculateBearing_range: "0 \<le> calculateBearing p q \<and> calculateBearing p q < 360"
proof -
  let ?y = "sin ((fst q - fst p) * pi / 180) * cos (snd q * pi / 180)"
  let ?x = "cos (snd p * pi / 180) * sin (snd q * pi / 180) -
            sin (snd p * pi / 180) * cos (snd q * pi / 180) * cos ((fst q - fst p) * pi / 180)"
  have "- pi < atan2 ?y ?x" using atan2_range by blast
  then have "- pi * 180 < atan2 ?y ?x * 180" by simp
  then have "- 180 < atan2 ?y ?x * 180 / pi" by (simp add: pos_less_divide_eq)
  then have "0 \<le> atan2 ?y ?x * 180 / pi + 360" by simp
  from jsRem_range[OF this] show ?thesis by (simp add: calculateBearing_def Let_def)
qed

lemma dirLoop_Suc: "1 \<le> k \<Longrightarrow> dirLoop p (Suc k) = dirStep p (dirLoop p k) k"
  by (simp add: dirLoop_def)

lemma dirLoop_1: "dirLoop p (Suc 0) = dirInit p"
  by (simp add: dirLoop_def)

lemma directions_turnCheck:
  "directions (turnCheck st c cb) = directions st @
     (case previousBearing st of
        None \<Rightarrow> []
      | Some pb \<Rightarrow> if calculateTurn pb cb \<noteq> ''straight'' \<and> segmentDistance st > 3
                   then [turnDirection st c (calculateTurn pb cb)] else [])"
  by (simp add: turnCheck_def Let_def split: option.splits)

lemma directions_waypointCheck:
  "directions (waypointCheck p i st c) = directions st @
     (if \<not> isCorridorDir (rp_name c) \<and> i + 1 < length p \<and> i + 2 < length p \<and> segmentDistance st > 5
      then [waypointDirection st c] else [])"
  by (simp add: waypointCheck_def)

lemma segmentDistance_turnCheck:
  "segmentDistance (turnCheck st c cb) =
     (if directions (turnCheck st c cb) = directions st then segmentDistance st else 0)"
  by (simp add: turnCheck_def Let_def split: option.splits)

lemma segmentDistance_waypointCheck:
  "segmentDistance (waypointCheck p i st c) =
     (if directions (waypointCheck p i st c) = directions st then segmentDistance st else 0)"
  by (simp add: waypointCheck_def)

lemma d_type_simps [simp]:
  "d_type (turnDirection st c t) = Turn" "d_type (waypointDirection st c) = Waypoint"
  "d_type (floorChangeDirection st a b) = FloorChange" "d_type (destinationDirection st c) = Destination"
  "d_type (startDirection c) = Start"
  "d_turn (turnDirection st c t) = Some t" "d_turn (waypointDirection st c) = None"
  "d_turn (floorChangeDirection st a b) = None" "d_turn (destinationDirection st c) = None"
  "d_turn (startDirection c) = None"
  by (simp_all add: turnDirection_def waypointDirection_def floorChangeDirection_def
      destinationDirection_def startDirection_def Let_def)

lemma dirStep_emitted_sameFloor:
  assumes "rp_floor (p ! i) = rp_floor (p ! (i - 1))"
  shows "\<exists>ts ws. directions (dirStep p st i) = directions st @ ts @ ws \<and>
           (\<forall>w \<in> set ws. d_type w = Waypoint) \<and>
           (\<not> i + 2 < length p \<longrightarrow> ws = []) \<and>
           ts = (case previousBearing st of
                   None \<Rightarrow> []
                 | Some pb \<Rightarrow>
                     if calculateTurn pb (segBearing p i) \<noteq> ''straight'' \<and>
                        segmentDistance st + segLength p i > 3
                     then [turnDirection
                             (st\<lparr>segmentDistance := segmentDistance st + segLength p i,
                                 cumulativeDistance := cumulativeDistance st + segLength p i\<rparr>)
                             (p ! i) (calculateTurn pb (segBearing p i))]
                     else []) \<and>
           segmentDistance (dirStep p st i) =
             (if ts @ ws = [] then segmentDistance st + segLength p i else 0) \<and>
           previousBearing (dirStep p st i) = Some (segBearing p i)"
  using assms
  by (simp add: dirStep_def Let_def directions_waypointCheck directions_turnCheck
      segmentDistance_waypointCheck segmentDistance_turnCheck segBearing_def segLength_def
      split: option.splits)

lemma dirStep_emitted_floorChange:
  assumes "rp_floor (p ! i) \<noteq> rp_floor (p ! (i - 1))"
  shows "\<exists>d. directions (dirStep p st i) = directions st @ [d] \<and> d_type d = FloorChange \<and>
           segmentDistance (dirStep p st i) = 0 \<and> previousBearing (dirStep p st i) = None"
  using assms by (simp add: dirStep_def Let_def)

lemma emittedAt_step:
  "1 \<le> i \<Longrightarrow> emittedAt p i =
     drop (length (directions (dirLoop p i))) (directions (dirStep p (dirLoop p i) i))"
  by (simp add: emittedAt_def dirLoop_Suc)

lemma loop_step_state:
  assumes "1 \<le> k"
  shows "previousBearing (dirLoop p (Suc k)) =
           (if rp_floor (p ! k) = rp_floor (p ! (k - 1)) then Some (segBearing p k) else None) \<and>
         segmentDistance (dirLoop p (Suc k)) =
           (if emittedAt p k = [] then segmentDistance (dirLoop p k) + segLength p k else 0)"
proof (cases "rp_floor (p ! k) = rp_floor (p ! (k - 1))")
  case True
  from dirStep_emitted_sameFloor[OF True, of "dirLoop p k"] obtain ts ws where
    d: "directions (dirStep p (dirLoop p k) k) = directions (dirLoop p k) @ ts @ ws"
    and s: "segmentDistance (dirStep p (dirLoop p k) k) =
             (if ts @ ws = [] then segmentDistance (dirLoop p k) + segLength p k else 0)"
    and b: "previousBearing (dirStep p (dirLoop p k) k) = Some (segBearing p k)"
    by blast
  from d have "emittedAt p k = ts @ ws" by (simp add: emittedAt_step[OF assms])
  with s b True show ?thesis by (simp add: dirLoop_Suc[OF assms])
next
  case False
  from dirStep_emitted_floorChange[OF False, of "dirLoop p k"] obtain d where
    d: "directions (dirStep p (dirLoop p k) k) = directions (dirLoop p k) @ [d]"
    and s: "segmentDistance (dirStep p (dirLoop p k) k) = 0"
    and b: "previousBearing (dirStep p (dirLoop p k) k) = None"
    by blast
  from d have "emittedAt p k = [d]" by (simp add: emittedAt_step[OF assms])
  with s b False show ?thesis by (simp add: dirLoop_Suc[OF assms])
qed

lemma lastEmit_less: "1 \<le> k \<Longrightarrow> lastEmit p k < k"
  by (induction k rule: nat_induct_at_least) (auto simp: less_Suc_eq)

lemma segmentDistance_accumulated:
  "1 \<le> k \<Longrightarrow> segmentDistance (dirLoop p k) = sum_list (map (segLength p) [Suc (lastEmit p k)..<k])"
proof (induction k rule: nat_induct_at_least)
  case base
  show ?case by (simp add: dirLoop_1 dirInit_def)
next
  case (Suc k)
  show ?case
  proof (cases "emittedAt p k = []")
    case True
    from lastEmit_less[OF Suc.hyps, of p] have "Suc (lastEmit p k) \<le> k" by simp
    then have "[Suc (lastEmit p k)..<Suc k] = [Suc (lastEmit p k)..<k] @ [k]" by simp
    with True Suc loop_step_state[OF Suc.hyps, of p] show ?thesis by simp
  next
    case False
    with Suc.hyps loop_step_state[OF Suc.hyps, of p] show ?thesis by simp
  qed
qed

lemma sinceLastEmission_eq:
  assumes "1 \<le> i"
  shows "sinceLastEmission p i = segmentDistance (dirLoop p i) + segLength p i"
proof -
  from lastEmit_less[OF assms, of p] have "Suc (lastEmit p i) \<le> i" by simp
  then have "[Suc (lastEmit p i)..<Suc i] = [Suc (lastEmit p i)..<i] @ [i]" by simp
  then show ?thesis by (simp add: sinceLastEmission_def segmentDistance_accumulated[OF assms])
qed

lemma turn_emission_aux:
  assumes "2 \<le> i"
    and "rp_floor (routePath ! (i - 2)) = rp_floor (routePath ! (i - 1))"
    and "rp_floor (routePath ! (i - 1)) = rp_floor (routePath ! i)"
  shows "\<exists>ws. (\<forall>w \<in> set ws. d_type w = Waypoint) \<and> (\<not> i + 2 < length routePath \<longrightarrow> ws = []) \<and>
     emittedAt routePath i =
       (if classify (signedDelta (segBearing routePath (i - 1)) (segBearing routePath i)) \<noteq> StraightC \<and>
           sinceLastEmission routePath i > 3
        then [turnDirection
               ((dirLoop routePath i)\<lparr>segmentDistance := sinceLastEmission routePath i,
                  cumulativeDistance := cumulativeDistance (dirLoop routePath i) + segLength routePath i\<rparr>)
               (routePath ! i)
               (turnName (classify (signedDelta (segBearing routePath (i - 1)) (segBearing routePath i)))
                  (signedDelta (segBearing routePath (i - 1)) (segBearing routePath i) > 0))]
        else []) @ ws"
proof -
  let ?st = "dirLoop routePath i"
  let ?b1 = "segBearing routePath (i - 1)" and ?b2 = "segBearing routePath i"
  from assms(1) have i1: "1 \<le> i" by simp
  from assms(1) obtain j where j: "i = Suc j" "1 \<le> j" by (cases i) auto
  from j have e: "i - 1 = j" "i - 2 = j - 1" by simp_all
  from loop_step_state[OF j(2), of routePath] assms(2)
  have pb: "previousBearing ?st = Some ?b1" unfolding e j(1) by simp
  have r: "0 \<le> ?b1" "?b1 < 360" "0 \<le> ?b2" "?b2 < 360"
    using calculateBearing_range by (simp_all add: segBearing_def)
  have ct: "calculateTurn ?b1 ?b2 = turnName (classify (signedDelta ?b1 ?b2)) (signedDelta ?b1 ?b2 > 0)"
    by (rule calculateTurn_classify[OF r])
  have st: "turnName c right = ''straight'' \<longleftrightarrow> c = StraightC" for c right
    by (cases c) auto
  have sl: "segmentDistance ?st + segLength routePath i = sinceLastEmission routePath i"
    by (simp add: sinceLastEmission_eq[OF i1])
  from dirStep_emitted_sameFloor[of routePath i ?st] assms(3) obtain ts ws where
    d: "directions (dirStep routePath ?st i) = directions ?st @ ts @ ws"
    and w: "\<forall>w \<in> set ws. d_type w = Waypoint" "\<not> i + 2 < length routePath \<longrightarrow> ws = []"
    and ts: "ts = (case previousBearing ?st of
                   None \<Rightarrow> []
                 | Some pb \<Rightarrow>
                     if calculateTurn pb ?b2 \<noteq> ''straight'' \<and>
                        segmentDistance ?st + segLength routePath i > 3
                     then [turnDirection
                             (?st\<lparr>segmentDistance := segmentDistance ?st + segLength routePath i,
                                 cumulativeDistance := cumulativeDistance ?st + segLength routePath i\<rparr>)
                             (routePath ! i) (calculateTurn pb ?b2)]
                     else [])"
    by auto
  from d have e: "emittedAt routePath i = ts @ ws" by (simp add: emittedAt_step[OF i1])
  from ts have "ts = (if classify (signedDelta ?b1 ?b2) \<noteq> StraightC \<and> sinceLastEmission routePath i > 3
        then [turnDirection
               (?st\<lparr>segmentDistance := sinceLastEmission routePath i,
                  cumulativeDistance := cumulativeDistance ?st + segLength routePath i\<rparr>)
               (routePath ! i)
               (turnName (classify (signedDelta ?b1 ?b2)) (signedDelta ?b1 ?b2 > 0))]
        else [])"
    unfolding pb option.case ct st sl .
  with e w show ?thesis by blast
qed

lemma directions_grow:
  assumes "1 \<le> k"
  shows "directions (dirLoop p (Suc k)) = directions (dirLoop p k) @ emittedAt p k"
proof (cases "rp_floor (p ! k) = rp_floor (p ! (k - 1))")
  case True
  from dirStep_emitted_sameFloor[OF True, of "dirLoop p k"] obtain ts ws where
    "directions (dirStep p (dirLoop p k) k) = directions (dirLoop p k) @ ts @ ws" by blast
  then show ?thesis by (simp add: emittedAt_step[OF assms] dirLoop_Suc[OF assms])
next
  case False
  from dirStep_emitted_floorChange[OF False, of "dirLoop p k"] obtain d where
    "directions (dirStep p (dirLoop p k) k) = directions (dirLoop p k) @ [d]" by blast
  then show ?thesis by (simp add: emittedAt_step[OF assms] dirLoop_Suc[OF assms])
qed

lemma directions_dirLoop:
  "1 \<le> k \<Longrightarrow> directions (dirLoop p k) = startDirection (p ! 0) # concat (map (emittedAt p) [1..<k])"
proof (induction k rule: nat_induct_at_least)
  case base
  show ?case by (simp add: dirLoop_1 dirInit_def)
next
  case (Suc k)
  then show ?case by (simp add: directions_grow)
qed

lemma generateDirections_emitted:
  assumes "2 \<le> length p"
  shows "generateDirections p =
           startDirection (p ! 0) # concat (map (emittedAt p) [1..<length p]) @
           [destinationDirection (dirLoop p (length p)) (p ! (length p - 1))]"
proof -
  from assms have "1 \<le> length p" by simp
  from directions_dirLoop[OF this, of p] assms show ?thesis
    by (simp add: generateDirections_def Let_def dirLoop_def)
qed

lemma first_segment_emits_nothing:
  assumes "length p = 3" "rp_floor (p ! 0) = rp_floor (p ! 1)"
  shows "emittedAt p 1 = []"
proof -
  from assms(2) have f: "rp_floor (p ! 1) = rp_floor (p ! (1 - 1))" by simp
  from dirStep_emitted_sameFloor[OF f, of "dirLoop p 1"] assms(1) obtain ts ws where
    d: "directions (dirStep p (dirLoop p 1) 1) = directions (dirLoop p 1) @ ts @ ws"
    and w: "ws = []"
    and ts: "ts = (case previousBearing (dirLoop p 1) of None \<Rightarrow> [] | Some pb \<Rightarrow>
                     if calculateTurn pb (segBearing p 1) \<noteq> ''straight'' \<and>
                        segmentDistance (dirLoop p 1) + segLength p 1 > 3
                     then [turnDirection
                             ((dirLoop p 1)\<lparr>segmentDistance := segmentDistance (dirLoop p 1) + segLength p 1,
                                 cumulativeDistance := cumulativeDistance (dirLoop p 1) + segLength p 1\<rparr>)
                             (p ! 1) (calculateTurn pb (segBearing p 1))]
                     else [])"
    by auto
  have "previousBearing (dirLoop p 1) = None" using dirLoop_1[of p] by (simp add: dirInit_def)
  with ts have "ts = []" by simp
  with d w show ?thesis using emittedAt_step[of 1 p] by simp
qed

text \<open>
  Claim C8. The output of \<^verbatim>\<open>generateDirections\<close> is the start direction, then what each
  iteration \<open>i = 1, ..., length - 1\<close> emits, then the destination direction. For a pair of
  consecutive same-floor segments \<open>(i - 2, i - 1)\<close> and \<open>(i - 1, i)\<close>, iteration \<open>i\<close> emits a
  turn direction exactly when the signed bearing delta of the two segments (normalised to
  \<open>[-180, 180]\<close>) is not classified straight (straight: \<open>|delta| < 20\<close>; slight:
  \<open>20 \<le> |delta| < 60\<close>; turn: \<open>60 \<le> |delta| < 120\<close>; sharp turn: \<open>120 \<le> |delta| < 160\<close>;
  back: \<open>160 \<le> |delta|\<close>) and the segment distance accumulated since the last iteration that
  emitted an instruction, the current segment included, exceeds 3. It emits at most one turn,
  whose classification is that of the delta (right for a positive delta, left otherwise). A
  3-point single-floor path whose bearing changes by 90 degrees at the midpoint and whose two
  segments are longer than 3 in total yields exactly start, one plain turn, destination.
\<close>

theorem generateDirections_turns:
  assumes "2 \<le> i" and "i < length routePath"
    and "rp_floor (routePath ! (i - 2)) = rp_floor (routePath ! (i - 1))"
    and "rp_floor (routePath ! (i - 1)) = rp_floor (routePath ! i)"
  shows
   "generateDirections routePath =
      startDirection (routePath ! 0) # concat (map (emittedAt routePath) [1..<length routePath]) @
      [destinationDirection (dirLoop routePath (length routePath)) (routePath ! (length routePath - 1))] \<and>
    ((\<exists>d \<in> set (emittedAt routePath i). d_type d = Turn) \<longleftrightarrow>
       classify (signedDelta (segBearing routePath (i - 1)) (segBearing routePath i)) \<noteq> StraightC \<and>
       sinceLastEmission routePath i > 3) \<and>
    (\<forall>d \<in> set (emittedAt routePath i). d_type d = Turn \<longrightarrow>
       d_turn d = Some (turnName
         (classify (signedDelta (segBearing routePath (i - 1)) (segBearing routePath i)))
         (0 < signedDelta (segBearing routePath (i - 1)) (segBearing routePath i)))) \<and>
    length (filter (\<lambda>d. d_type d = Turn) (emittedAt routePath i)) \<le> 1 \<and>
    (length routePath = 3 \<and>
     \<bar>signedDelta (segBearing routePath 1) (segBearing routePath 2)\<bar> = 90 \<and>
     segLength routePath 1 + segLength routePath 2 > 3 \<longrightarrow>
       map d_type (generateDirections routePath) = [Start, Turn, Destination] \<and>
       map d_turn (generateDirections routePath) =
         [None,
          Some (if 0 < signedDelta (segBearing routePath 1) (segBearing routePath 2)
                then ''right'' else ''left''),
          None])"
proof -
  let ?delta = "signedDelta (segBearing routePath (i - 1)) (segBearing routePath i)"
  from assms(1,2) have n: "2 \<le> length routePath" by simp
  note gen = generateDirections_emitted[OF n]
  from turn_emission_aux[OF assms(1,3,4)] obtain ws where
    w: "\<forall>w \<in> set ws. d_type w = Waypoint" and we: "\<not> i + 2 < length routePath \<longrightarrow> ws = []"
    and e: "emittedAt routePath i =
       (if classify ?delta \<noteq> StraightC \<and> sinceLastEmission routePath i > 3
        then [turnDirection
               ((dirLoop routePath i)\<lparr>segmentDistance := sinceLastEmission routePath i,
                  cumulativeDistance := cumulativeDistance (dirLoop routePath i) + segLength routePath i\<rparr>)
               (routePath ! i) (turnName (classify ?delta) (?delta > 0))]
        else []) @ ws"
    by blast
  have a: "(\<exists>d \<in> set (emittedAt routePath i). d_type d = Turn) \<longleftrightarrow>
       classify ?delta \<noteq> StraightC \<and> sinceLastEmission routePath i > 3"
    using w by (auto simp: e)
  have b: "\<forall>d \<in> set (emittedAt routePath i). d_type d = Turn \<longrightarrow>
       d_turn d = Some (turnName (classify ?delta) (0 < ?delta))"
    using w by (auto simp: e)
  have "filter (\<lambda>d. d_type d = Turn) ws = []" using w by (auto simp: filter_empty_conv)
  then have c: "length (filter (\<lambda>d. d_type d = Turn) (emittedAt routePath i)) \<le> 1"
    by (simp add: e)
  have three: "map d_type (generateDirections routePath) = [Start, Turn, Destination] \<and>
       map d_turn (generateDirections routePath) =
         [None,
          Some (if 0 < signedDelta (segBearing routePath 1) (segBearing routePath 2)
                then ''right'' else ''left''),
          None]"
    if h: "length routePath = 3"
      "\<bar>signedDelta (segBearing routePath 1) (segBearing routePath 2)\<bar> = 90"
      "segLength routePath 1 + segLength routePath 2 > 3"
  proof -
    from assms(1,2) h(1) have i: "i = 2" by simp
    from assms(3) i have f01: "rp_floor (routePath ! 0) = rp_floor (routePath ! 1)" by simp
    have e1: "emittedAt routePath 1 = []" by (rule first_segment_emits_nothing[OF h(1) f01])
    have e1': "emittedAt routePath (Suc 0) = []" using e1 unfolding One_nat_def .
    have le: "lastEmit routePath (Suc (Suc 0)) = 0"
      using e1' by simp
    have "sinceLastEmission routePath (Suc (Suc 0)) =
          segLength routePath (Suc 0) + segLength routePath (Suc (Suc 0))"
      unfolding sinceLastEmission_def le by (simp add: upt_rec)
    then have sl: "sinceLastEmission routePath 2 = segLength routePath 1 + segLength routePath 2"
      by (simp add: numeral_2_eq_2)
    from h(2) have cl: "classify (signedDelta (segBearing routePath 1) (segBearing routePath 2)) = PlainTurnC"
      by (simp add: classify_def)
    from we i h(1) have wn: "ws = []" by simp
    from e i cl sl h(3) wn have e2: "emittedAt routePath 2 =
        [turnDirection
               ((dirLoop routePath 2)\<lparr>segmentDistance := sinceLastEmission routePath 2,
                  cumulativeDistance := cumulativeDistance (dirLoop routePath 2) + segLength routePath 2\<rparr>)
               (routePath ! 2)
               (turnName PlainTurnC (signedDelta (segBearing routePath 1) (segBearing routePath 2) > 0))]"
      by simp
    have u: "[1..<length routePath] = [1, 2]" by (simp add: h(1) upt_rec)
    show ?thesis unfolding gen u by (simp add: e1' e2)
  qed
  from gen a b c three show ?thesis by blast
qed

lemma sin_one_degree_pos: "0 < sin (pi / 180)"
  by (intro sin_gt_zero) (use pi_gt_zero in auto)

lemma exRightAngle_bearings:
  "calculateBearing (0, - 1) (0, 0) = 0" "calculateBearing (0, 0) (1, 0) = 90"
proof -
  have a: "atan2 0 (sin (pi / 180)) = 0"
    using sin_one_degree_pos by (simp add: atan2_def)
  have b: "atan2 (sin (pi / 180)) 0 = pi / 2"
    using sin_one_degree_pos by (simp add: atan2_def)
  show "calculateBearing (0, - 1) (0, 0) = 0"
    by (simp add: calculateBearing_def Let_def a jsRem_def)
  show "calculateBearing (0, 0) (1, 0) = 90"
    by (simp add: calculateBearing_def Let_def b jsRem_def)
qed

lemma exRightAngle_lengths:
  "calculateDistance (0, - 1) (0, 0) = 6371000 * (pi / 180)"
  "calculateDistance (0, 0) (1, 0) = 6371000 * (pi / 180)"
  using calculateDistance_meridian[of 0 "- 1" 0] calculateDistance_equator[of 1 0] by simp_all

theorem generateDirections_turns_witness:
  "2 \<le> (2::nat) \<and> 2 < length exRightAngle \<and>
   rp_floor (exRightAngle ! 0) = rp_floor (exRightAngle ! 1) \<and>
   rp_floor (exRightAngle ! 1) = rp_floor (exRightAngle ! 2) \<and>
   signedDelta (segBearing exRightAngle 1) (segBearing exRightAngle 2) = 90 \<and>
   segLength exRightAngle 1 + segLength exRightAngle 2 > 3 \<and>
   map d_type (generateDirections exRightAngle) = [Start, Turn, Destination] \<and>
   map d_turn (generateDirections exRightAngle) = [None, Some ''right'', None]"
proof -
  have l: "length exRightAngle = 3" "2 < length exRightAngle" by (simp_all add: exRightAngle_def)
  have f: "rp_floor (exRightAngle ! (2 - 2)) = rp_floor (exRightAngle ! (2 - 1))"
    "rp_floor (exRightAngle ! (2 - 1)) = rp_floor (exRightAngle ! 2)"
    by (simp_all add: exRightAngle_def mkPoint_def)
  have b: "segBearing exRightAngle 1 = 0" "segBearing exRightAngle 2 = 90"
    by (simp_all add: segBearing_def exRightAngle_def mkPoint_def exRightAngle_bearings)
  have d: "signedDelta (segBearing exRightAngle 1) (segBearing exRightAngle 2) = 90"
    unfolding b by (simp add: signedDelta_def)
  have s: "segLength exRightAngle 1 + segLength exRightAngle 2 = 2 * (6371000 * (pi / 180))"
    by (simp add: segLength_def exRightAngle_def mkPoint_def exRightAngle_lengths)
  have "2 * (6371000 * (2 / 180)) \<le> 2 * (6371000 * (pi / 180))"
    using pi_ge_two by simp
  then have g: "segLength exRightAngle 1 + segLength exRightAngle 2 > 3" unfolding s by simp
  have d': "\<bar>signedDelta (segBearing exRightAngle 1) (segBearing exRightAngle 2)\<bar> = 90"
    unfolding d by simp
  from generateDirections_turns[OF order_refl l(2) f]
  have "length exRightAngle = 3 \<and>
     \<bar>signedDelta (segBearing exRightAngle 1) (segBearing exRightAngle 2)\<bar> = 90 \<and>
     segLength exRightAngle 1 + segLength exRightAngle 2 > 3 \<longrightarrow>
       map d_type (generateDirections exRightAngle) = [Start, Turn, Destination] \<and>
       map d_turn (generateDirections exRightAngle) =
         [None,
          Some (if 0 < signedDelta (segBearing exRightAngle 1) (segBearing exRightAngle 2)
                then ''right'' else ''left''),
          None]"
    by blast
  with l(1) d' g
  have "map d_type (generateDirections exRightAngle) = [Start, Turn, Destination] \<and>
       map d_turn (generateDirections exRightAngle) =
         [None,
          Some (if 0 < signedDelta (segBearing exRightAngle 1) (segBearing exRightAngle 2)
                then ''right'' else ''left''),
          None]"
    by blast
  then have r: "map d_type (generateDirections exRightAngle) = [Start, Turn, Destination] \<and>
        map d_turn (generateDirections exRightAngle) = [None, Some ''right'', None]"
    unfolding d by simp
  have f': "rp_floor (exRightAngle ! 0) = rp_floor (exRightAngle ! 1)"
    "rp_floor (exRightAngle ! 1) = rp_floor (exRightAngle ! 2)"
    by (simp_all add: exRightAngle_def mkPoint_def)
  from l(2) f' d g r show ?thesis by blast
qed

subsection \<open>Path enhancer\<close>

lemma collectCoords_total:
  "\<forall>f \<in> set fs. ringed f \<Longrightarrow> \<exists>cs. collectCoords fs = Inr cs"
  by (induction fs) (auto simp: ringed_def)

lemma getRoomBoundaryPoints_total:
  "\<forall>f \<in> set fs. ringed f \<Longrightarrow> \<exists>r. getRoomBoundaryPoints fs t = Inr r"
  using collectCoords_total[of fs] by (auto simp: getRoomBoundaryPoints_def split: list.splits)

lemma getCorridorPathPoints_total:
  assumes "\<forall>f \<in> set fs. ringed f"
  shows "\<exists>r. getCorridorPathPoints fs a b n = Inr r"
proof -
  from collectCoords_total[OF assms] obtain cs where cs: "collectCoords fs = Inr cs" by blast
  from getRoomBoundaryPoints_total[OF assms] obtain r1 where r1: "getRoomBoundaryPoints fs a = Inr r1" by blast
  from getRoomBoundaryPoints_total[OF assms] obtain r2 where r2: "getRoomBoundaryPoints fs b = Inr r2" by blast
  show ?thesis
    by (auto simp: getCorridorPathPoints_def cs r1 r2 split: option.splits)
qed

lemma waypointsAfter_cases:
  "waypointsAfter p i =
     (if \<not> distance (rp_coords (p ! i)) (rp_coords (p ! (i + 1))) > 8 / 1000 then Inr []
      else if isCorridor (rp_name (p ! i)) \<noteq> isCorridor (rp_name (p ! (i + 1))) then
        (case (if isCorridor (rp_name (p ! i))
               then getRoomBoundaryPoints (rp_features (p ! i)) (rp_coords (p ! (i + 1)))
               else getRoomBoundaryPoints (rp_features (p ! (i + 1))) (rp_coords (p ! i))) of
           Inl e \<Rightarrow> Inl e
         | Inr None \<Rightarrow> Inr []
         | Inr (Some c) \<Rightarrow>
             Inr [waypoint c (rp_floor (p ! i))
                    (if isCorridor (rp_name (p ! i)) then rp_name (p ! i) else rp_name (p ! (i + 1)))
                    (if isCorridor (rp_name (p ! i)) then rp_features (p ! i) else rp_features (p ! (i + 1)))])
      else if isCorridor (rp_name (p ! i)) \<and> isCorridor (rp_name (p ! (i + 1))) \<and>
              distance (rp_coords (p ! i)) (rp_coords (p ! (i + 1))) > 15 / 1000 then
        (case getCorridorPathPoints (rp_features (p ! i))
                (if i > 0 then rp_coords (p ! (i - 1)) else rp_coords (p ! i))
                (if i + 2 < length p then rp_coords (p ! (i + 2)) else rp_coords (p ! (i + 1)))
                (min (nat \<lfloor>distance (rp_coords (p ! i)) (rp_coords (p ! (i + 1))) / (1 / 100)\<rfloor>) 5) of
           Inl e \<Rightarrow> Inl e
         | Inr corridorPoints \<Rightarrow>
             Inr (map (\<lambda>c. waypoint c (rp_floor (p ! i)) (rp_name (p ! i)) (rp_features (p ! i)))
                    (if length corridorPoints > 0 then corridorPoints
                     else map (interpolate (rp_coords (p ! i)) (rp_coords (p ! (i + 1)))
                                 (min (nat \<lfloor>distance (rp_coords (p ! i)) (rp_coords (p ! (i + 1))) / (1 / 100)\<rfloor>) 5))
                            [1..<Suc (min (nat \<lfloor>distance (rp_coords (p ! i)) (rp_coords (p ! (i + 1))) / (1 / 100)\<rfloor>) 5)])))
      else if \<not> isCorridor (rp_name (p ! i)) \<and> \<not> isCorridor (rp_name (p ! (i + 1))) \<and>
              distance (rp_coords (p ! i)) (rp_coords (p ! (i + 1))) > 12 / 1000 then
        Inr [waypoint ((fst (rp_coords (p ! i)) + fst (rp_coords (p ! (i + 1)))) / 2,
                       (snd (rp_coords (p ! i)) + snd (rp_coords (p ! (i + 1)))) / 2)
               (rp_floor (p ! i)) ''transition'' (rp_features (p ! i))]
      else Inr [])"
  unfolding waypointsAfter_def Let_def
  by (simp add: comp_def split: sum.split)

lemma waypointsAfter_total:
  assumes "i + 1 < length p" "\<forall>q \<in> set p. \<forall>f \<in> set (rp_features q). ringed f"
  shows "\<exists>ws. waypointsAfter p i = Inr ws"
proof -
  from assms have a: "\<forall>f \<in> set (rp_features (p ! i)). ringed f"
    and b: "\<forall>f \<in> set (rp_features (p ! (i + 1))). ringed f" by auto
  obtain r1 where r1: "getRoomBoundaryPoints (rp_features (p ! i)) (rp_coords (p ! (i + 1))) = Inr r1"
    using getRoomBoundaryPoints_total[OF a] by blast
  obtain r2 where r2: "getRoomBoundaryPoints (rp_features (p ! (i + 1))) (rp_coords (p ! i)) = Inr r2"
    using getRoomBoundaryPoints_total[OF b] by blast
  obtain r3 where r3: "getCorridorPathPoints (rp_features (p ! i))
                (if i > 0 then rp_coords (p ! (i - 1)) else rp_coords (p ! i))
                (if i + 2 < length p then rp_coords (p ! (i + 2)) else rp_coords (p ! (i + 1)))
                (min (nat \<lfloor>distance (rp_coords (p ! i)) (rp_coords (p ! (i + 1))) / (1 / 100)\<rfloor>) 5) = Inr r3"
    using getCorridorPathPoints_total[OF a] by blast
  show ?thesis
    unfolding waypointsAfter_cases r1 r2 r3
    by (cases r1; cases r2) simp_all
qed

lemma waypoint_marked [simp]: "rp_isWaypoint (waypoint c fl n fs) = Some True"
  by (simp add: waypoint_def)

lemma waypointsAfter_marked:
  assumes "waypointsAfter p i = Inr ws"
  shows "\<forall>w \<in> set ws. rp_isWaypoint w = Some True"
  using assms unfolding waypointsAfter_cases
  by (auto simp del: upt_Suc split: if_splits sum.splits option.splits)

lemma enhanceStep_total:
  assumes "\<forall>q \<in> set p. \<forall>f \<in> set (rp_features q). ringed f"
  shows "\<exists>piece. enhanceStep p i = Inr piece"
proof (cases "i + 1 < length p")
  case True
  from waypointsAfter_total[OF True assms] obtain ws where "waypointsAfter p i = Inr ws" by blast
  with True show ?thesis by (simp add: enhanceStep_def)
next
  case False
  then show ?thesis by (simp add: enhanceStep_def)
qed

lemma enhanceStep_Inr:
  assumes "enhanceStep p i = Inr piece"
  shows "\<exists>ws. piece = p ! i # ws \<and> (\<forall>w \<in> set ws. rp_isWaypoint w = Some True) \<and>
           (if i + 1 < length p then waypointsAfter p i = Inr ws else ws = [])"
proof (cases "i + 1 < length p")
  case True
  with assms obtain ws where ws: "waypointsAfter p i = Inr ws" "piece = p ! i # ws"
    by (auto simp: enhanceStep_def split: sum.splits)
  with waypointsAfter_marked[OF ws(1)] True show ?thesis by simp
next
  case False
  with assms show ?thesis by (auto simp: enhanceStep_def)
qed

lemma list_all2_nth_left:
  "list_all2 P xs ys \<Longrightarrow> i < length xs \<Longrightarrow> P (xs ! i) (ys ! i)"
  by (simp add: list_all2_conv_all_nth)

lemma concat_singletons: "concat (map (\<lambda>i. [p ! i]) [0..<length p]) = p"
proof -
  have "concat (map (\<lambda>i. [p ! i]) [0..<length p]) = map (\<lambda>i. p ! i) [0..<length p]"
    by (induction "length p" arbitrary: p) (simp_all add: concat_map_singleton)
  then show ?thesis by (simp add: map_nth)
qed

text \<open>
  Claim C10. A path of fewer than 2 points is returned unchanged. For a longer path the
  output is the input points in their order, each followed by the points inserted after it:
  what is inserted after point \<open>i\<close> is what the loop computes from the pair \<open>(i, i + 1)\<close>
  (\<^verbatim>\<open>waypointsAfter\<close>), nothing is inserted after the last point, and every inserted point
  carries \<^verbatim>\<open>isWaypoint = true\<close>; so removing the points marked as waypoints from the output
  gives back an input none of whose points is marked. The call returns whenever every
  feature of every point has an outer ring to read (as have all features that passed
  \<^verbatim>\<open>getCentroid\<close>, the only ones \<^verbatim>\<open>findRoute\<close> passes on).
\<close>

theorem addCorridorWaypoints_keeps_input:
  "(length pathCoords < 2 \<longrightarrow> addCorridorWaypoints pathCoords = Inr pathCoords) \<and>
   ((\<forall>q \<in> set pathCoords. \<forall>f \<in> set (rp_features q). ringed f) \<longrightarrow>
      (\<exists>out. addCorridorWaypoints pathCoords = Inr out)) \<and>
   (\<forall>out. addCorridorWaypoints pathCoords = Inr out \<and> 2 \<le> length pathCoords \<longrightarrow>
      (\<exists>ins. length ins = length pathCoords \<and>
         out = concat (map (\<lambda>i. pathCoords ! i # ins ! i) [0..<length pathCoords]) \<and>
         (\<forall>i. i + 1 < length pathCoords \<longrightarrow> waypointsAfter pathCoords i = Inr (ins ! i)) \<and>
         ins ! (length pathCoords - 1) = [] \<and>
         (\<forall>w \<in> set (concat ins). rp_isWaypoint w = Some True)) \<and>
      ((\<forall>q \<in> set pathCoords. rp_isWaypoint q \<noteq> Some True) \<longrightarrow>
         filter (\<lambda>q. rp_isWaypoint q \<noteq> Some True) out = pathCoords))"
proof (intro conjI allI impI)
  assume "length pathCoords < 2"
  then show "addCorridorWaypoints pathCoords = Inr pathCoords" by (simp add: addCorridorWaypoints_def)
next
  assume wf: "\<forall>q \<in> set pathCoords. \<forall>f \<in> set (rp_features q). ringed f"
  have "\<forall>i \<in> set [0..<length pathCoords]. \<exists>piece. enhanceStep pathCoords i = Inr piece"
    using enhanceStep_total[OF wf] by blast
  from mapM_total[OF this] obtain pieces where
    "mapM (enhanceStep pathCoords) [0..<length pathCoords] = Inr pieces" by blast
  then show "\<exists>out. addCorridorWaypoints pathCoords = Inr out"
    by (simp add: addCorridorWaypoints_def)
next
  fix out
  assume h: "addCorridorWaypoints pathCoords = Inr out \<and> 2 \<le> length pathCoords"
  let ?n = "length pathCoords"
  from h obtain pieces where pc: "mapM (enhanceStep pathCoords) [0..<?n] = Inr pieces"
    and out: "out = concat pieces"
    by (auto simp: addCorridorWaypoints_def split: sum.splits if_splits)
  from mapM_Inr[OF pc] have la: "list_all2 (\<lambda>i piece. enhanceStep pathCoords i = Inr piece) [0..<?n] pieces" .
  then have len: "length pieces = ?n" by (auto dest: list_all2_lengthD)
  have step: "enhanceStep pathCoords i = Inr (pieces ! i)" if "i < ?n" for i
    using list_all2_nth_left[OF la, of i] that by simp
  define ins where "ins = map tl pieces"
  have piece: "pieces ! i = pathCoords ! i # ins ! i \<and>
        (\<forall>w \<in> set (ins ! i). rp_isWaypoint w = Some True) \<and>
        (if i + 1 < ?n then waypointsAfter pathCoords i = Inr (ins ! i) else ins ! i = [])"
    if "i < ?n" for i
  proof -
    from enhanceStep_Inr[OF step[OF that]] obtain ws where
      "pieces ! i = pathCoords ! i # ws" "\<forall>w \<in> set ws. rp_isWaypoint w = Some True"
      "if i + 1 < ?n then waypointsAfter pathCoords i = Inr ws else ws = []" by blast
    moreover from this that len have "ins ! i = ws" by (simp add: ins_def)
    ultimately show ?thesis by simp
  qed
  have pieces_eq: "pieces = map (\<lambda>i. pathCoords ! i # ins ! i) [0..<?n]"
    using piece len by (intro nth_equalityI) auto
  have marked: "\<forall>w \<in> set (concat ins). rp_isWaypoint w = Some True"
  proof
    fix w assume "w \<in> set (concat ins)"
    then obtain ws where "ws \<in> set ins" "w \<in> set ws" by auto
    then obtain i where "i < length ins" "w \<in> set (ins ! i)"
      by (metis in_set_conv_nth)
    with piece[of i] len show "rp_isWaypoint w = Some True" by (simp add: ins_def)
  qed
  have lastp: "ins ! (?n - 1) = []"
  proof -
    from h have n2: "2 \<le> ?n" by blast
    then have a: "?n - 1 < ?n" and b: "\<not> (?n - 1) + 1 < ?n" by simp_all
    from piece[OF a] b show ?thesis by presburger
  qed
  have between: "\<forall>i. i + 1 < ?n \<longrightarrow> waypointsAfter pathCoords i = Inr (ins ! i)"
    using piece by simp
  show "\<exists>ins. length ins = ?n \<and>
         out = concat (map (\<lambda>i. pathCoords ! i # ins ! i) [0..<?n]) \<and>
         (\<forall>i. i + 1 < ?n \<longrightarrow> waypointsAfter pathCoords i = Inr (ins ! i)) \<and>
         ins ! (?n - 1) = [] \<and>
         (\<forall>w \<in> set (concat ins). rp_isWaypoint w = Some True)"
  proof (intro exI[of _ ins] conjI)
    show "length ins = ?n" by (simp add: ins_def len)
    show "out = concat (map (\<lambda>i. pathCoords ! i # ins ! i) [0..<?n])"
      unfolding out by (subst pieces_eq) (rule refl)
    show "\<forall>i. i + 1 < ?n \<longrightarrow> waypointsAfter pathCoords i = Inr (ins ! i)" by (rule between)
    show "ins ! (?n - 1) = []" by (rule lastp)
    show "\<forall>w \<in> set (concat ins). rp_isWaypoint w = Some True" by (rule marked)
  qed
  assume nw: "\<forall>q \<in> set pathCoords. rp_isWaypoint q \<noteq> Some True"
  have "filter (\<lambda>q. rp_isWaypoint q \<noteq> Some True) (pathCoords ! i # ins ! i) = [pathCoords ! i]"
    if "i < ?n" for i
  proof -
    from that nw have "rp_isWaypoint (pathCoords ! i) \<noteq> Some True" by simp
    moreover from piece[OF that] have "filter (\<lambda>q. rp_isWaypoint q \<noteq> Some True) (ins ! i) = []"
      by (simp add: filter_empty_conv)
    ultimately show ?thesis by simp
  qed
  then have "map (filter (\<lambda>q. rp_isWaypoint q \<noteq> Some True))
                 (map (\<lambda>i. pathCoords ! i # ins ! i) [0..<?n]) = map (\<lambda>i. [pathCoords ! i]) [0..<?n]"
    by simp
  then have "map (filter (\<lambda>q. rp_isWaypoint q \<noteq> Some True)) pieces = map (\<lambda>i. [pathCoords ! i]) [0..<?n]"
    by (subst pieces_eq)
  then have "filter (\<lambda>q. rp_isWaypoint q \<noteq> Some True) out = concat (map (\<lambda>i. [pathCoords ! i]) [0..<?n])"
    by (simp add: out filter_concat)
  then show "filter (\<lambda>q. rp_isWaypoint q \<noteq> Some True) out = pathCoords"
    by (simp only: concat_singletons)
qed

lemma exTwoRooms_eval:
  "addCorridorWaypoints exTwoRooms =
     Inr [exTwoRooms ! 0, waypoint (1 / 100, 0) 1 ''transition'' [], exTwoRooms ! 1]"
proof -
  have c: "\<not> isCorridor ''A''" "\<not> isCorridor ''B''" by code_simp+
  have w: "waypointsAfter exTwoRooms 0 = Inr [waypoint (1 / 100, 0) 1 ''transition'' []]"
    unfolding waypointsAfter_cases
    by (simp add: exTwoRooms_def mkPoint_def distance_same_lat c)
  have u: "[0..<length exTwoRooms] = [0, 1]" by (simp add: exTwoRooms_def upt_rec)
  have l: "length exTwoRooms = 2" by (simp add: exTwoRooms_def)
  show ?thesis
    unfolding addCorridorWaypoints_def u
    by (simp add: enhanceStep_def l w)
qed

theorem addCorridorWaypoints_keeps_input_witness:
  "addCorridorWaypoints exTwoRooms =
     Inr [exTwoRooms ! 0, waypoint (1 / 100, 0) 1 ''transition'' [], exTwoRooms ! 1] \<and>
   filter (\<lambda>q. rp_isWaypoint q \<noteq> Some True)
     [exTwoRooms ! 0, waypoint (1 / 100, 0) 1 ''transition'' [], exTwoRooms ! 1] = exTwoRooms"
proof -
  have l: "2 \<le> length exTwoRooms" by (simp add: exTwoRooms_def)
  have nw: "\<forall>q \<in> set exTwoRooms. rp_isWaypoint q \<noteq> Some True"
    by (simp add: exTwoRooms_def mkPoint_def)
  from addCorridorWaypoints_keeps_input[of exTwoRooms] exTwoRooms_eval l nw
  have "filter (\<lambda>q. rp_isWaypoint q \<noteq> Some True)
     [exTwoRooms ! 0, waypoint (1 / 100, 0) 1 ''transition'' [], exTwoRooms ! 1] = exTwoRooms"
    by blast
  with exTwoRooms_eval show ?thesis by blast
qed

subsection \<open>Path search\<close>

lemma distance_triangle: "distance a c \<le> distance a b + distance b c"
proof -
  have "sqrt (((fst a - fst b) + (fst b - fst c))\<^sup>2 + ((snd a - snd b) + (snd b - snd c))\<^sup>2)
        \<le> sqrt ((fst a - fst b)\<^sup>2 + (snd a - snd b)\<^sup>2) + sqrt ((fst b - fst c)\<^sup>2 + (snd b - snd c)\<^sup>2)"
    by (rule real_sqrt_sum_squares_triangle_ineq)
  then show ?thesis by (simp add: distance_def Let_def power2_eq_square)
qed

lemma distance_nonneg: "0 \<le> distance a b"
  by (simp add: distance_def Let_def)

lemma distance_self: "distance a a = 0"
  by (simp add: distance_def Let_def)

lemma reconstruct_chain:
  "chain cf n p \<Longrightarrow> reconstruct cf n (n # rest) = Some (p @ rest)"
proof (induction arbitrary: rest rule: chain.induct)
  case (chain_root n)
  then show ?case by (subst reconstruct.simps) simp
next
  case (chain_step n c p)
  from chain_step.IH[of "n # rest"] chain_step.hyps(1) show ?case
    by (subst reconstruct.simps) simp
qed

lemma pickStep_fst:
  "fst (pickStep fs acc key) = fst acc \<or> fst (pickStep fs acc key) = Some key"
  by (auto simp: pickStep_def split: option.splits)

lemma pickLowest_fold_mem:
  "fst (foldl (pickStep fs) acc keys) = Some k \<Longrightarrow> fst acc = Some k \<or> k \<in> set keys"
proof (induction keys arbitrary: acc)
  case Nil
  then show ?case by simp
next
  case (Cons a keys)
  from Cons.IH[of "pickStep fs acc a"] Cons.prems pickStep_fst[of fs acc a]
  show ?case by auto
qed

lemma pickLowest_mem: "pickLowest fs keys = Some k \<Longrightarrow> k \<in> set keys"
  using pickLowest_fold_mem[of fs "(None, None)" keys k] by (simp add: pickLowest_def)

lemma pickAcc_step: "pickAcc fs seen acc \<Longrightarrow> pickAcc fs (seen @ [key]) (pickStep fs acc key)"
  by (cases acc; cases "fst acc"; cases "snd acc")
     (auto simp: pickAcc_def pickStep_def split: option.splits)

lemma pickAcc_fold:
  "pickAcc fs seen acc \<Longrightarrow> pickAcc fs (seen @ keys) (foldl (pickStep fs) acc keys)"
proof (induction keys arbitrary: seen acc)
  case Nil
  then show ?case by simp
next
  case (Cons a keys)
  from Cons.IH[OF pickAcc_step[OF Cons.prems, of a]] show ?case by simp
qed

lemma pickLowest_spec:
  "(pickLowest fs keys = None \<longrightarrow> (\<forall>k \<in> set keys. fOrInfinity fs k = None)) \<and>
   (\<forall>c. pickLowest fs keys = Some c \<longrightarrow>
      c \<in> set keys \<and> (\<exists>l. fOrInfinity fs c = Some l \<and>
        (\<forall>k \<in> set keys. \<forall>f. fOrInfinity fs k = Some f \<longrightarrow> l \<le> f)))"
proof -
  have "pickAcc fs [] (None, None)" by (simp add: pickAcc_def)
  from pickAcc_fold[OF this, of keys] have "pickAcc fs keys (foldl (pickStep fs) (None, None) keys)"
    by simp
  then show ?thesis
    by (cases "foldl (pickStep fs) (None, None) keys")
       (auto simp: pickLowest_def pickAcc_def split: option.splits)
qed

lemma chain_nodes:
  assumes "\<forall>n c. cf n = Some c \<longrightarrow> c \<in> C"
  shows "chain cf n p \<Longrightarrow> set p \<subseteq> insert n C"
proof (induction rule: chain.induct)
  case (chain_root n)
  then show ?case by simp
next
  case (chain_step n c p)
  with assms have "c \<in> C" by blast
  with chain_step.IH show ?case by auto
qed

lemma chain_cong:
  "chain cf n p \<Longrightarrow> \<forall>m \<in> set p. cf' m = cf m \<Longrightarrow> chain cf' n p"
proof (induction rule: chain.induct)
  case (chain_root n)
  then show ?case by (simp add: chain.chain_root)
next
  case (chain_step n c p)
  then have "cf' n = Some c" "chain cf' c p" by simp_all
  then show ?case by (rule chain.chain_step)
qed

lemma chain_update_other:
  assumes "chain cf n p" "\<forall>m c. cf m = Some c \<longrightarrow> c \<in> C" "k \<notin> C" "k \<noteq> n"
  shows "chain (cf(k \<mapsto> v)) n p"
proof -
  from chain_nodes[OF assms(2) assms(1)] assms(3,4) have "k \<notin> set p" by auto
  then have "\<forall>m \<in> set p. (cf(k \<mapsto> v)) m = cf m" by auto
  from chain_cong[OF assms(1) this] show ?thesis .
qed

lemma chain_update_self:
  assumes "chain cf c p" "\<forall>m c. cf m = Some c \<longrightarrow> c \<in> C" "k \<notin> C" "c \<in> C"
  shows "chain (cf(k \<mapsto> c)) k (p @ [k])"
proof -
  from assms(3,4) have "k \<noteq> c" by auto
  from chain_update_other[OF assms(1,2,3) this] have "chain (cf(k \<mapsto> c)) c p" .
  moreover have "(cf(k \<mapsto> c)) k = Some c" by simp
  ultimately show ?thesis by (rule chain.chain_step[rotated])
qed

lemma relax_unchanged: "\<not> improves gc st nb \<Longrightarrow> relax G ec c (Some gc) st nb = st"
  by (auto simp: relax_def improves_def Let_def split: option.splits)

lemma relax_improved:
  "improves gc st nb \<Longrightarrow>
   relax G ec c (Some gc) st nb =
     (case map_of G (n_key nb) of
        None \<Rightarrow> st\<lparr>cameFrom := (cameFrom st)(n_key nb \<mapsto> c),
                   gScore := (gScore st)(n_key nb \<mapsto> gc + n_distance nb)\<rparr>
      | Some nd' \<Rightarrow>
          st\<lparr>cameFrom := (cameFrom st)(n_key nb \<mapsto> c),
             gScore := (gScore st)(n_key nb \<mapsto> gc + n_distance nb),
             fScore := (fScore st)(n_key nb \<mapsto> gc + n_distance nb + distance (nd_centroid nd') ec),
             openSet := setAdd (openSet st) (n_key nb)\<rparr>)"
  by (auto simp: relax_def improves_def Let_def split: option.splits)

lemma relax_closedSet [simp]: "closedSet (relax G ec c g st nb) = closedSet st"
  by (auto simp: relax_def Let_def split: option.splits)

lemma relax_invSets:
  assumes "invSets G st"
  shows "invSets G (relax G ec c (Some gc) st nb)"
proof (cases "improves gc st nb")
  case False
  with assms show ?thesis by (simp add: relax_unchanged)
next
  case True
  then have nc: "n_key nb \<notin> set (closedSet st)" by (simp add: improves_def)
  show ?thesis
  proof (cases "map_of G (n_key nb)")
    case None
    then have "n_key nb \<notin> dom (map_of G)" by auto
    with assms None show ?thesis
      by (auto simp: relax_improved[OF True] invSets_def)
  next
    case (Some nd')
    then have "n_key nb \<in> dom (map_of G)" by auto
    with assms Some nc show ?thesis
      by (auto simp: relax_improved[OF True] invSets_def)
  qed
qed

lemma relax_invStart:
  assumes "invStart s st" "s \<in> set (closedSet st)"
  shows "invStart s (relax G ec c (Some gc) st nb)"
proof (cases "improves gc st nb")
  case False
  with assms show ?thesis by (simp add: relax_unchanged)
next
  case True
  with assms(2) have "n_key nb \<noteq> s" by (auto simp: improves_def)
  with assms show ?thesis
    by (auto simp: relax_improved[OF True] invStart_def split: option.splits)
qed

lemma relax_invF:
  assumes "invF G ec st" "invSets G st"
  shows "invF G ec (relax G ec c (Some gc) st nb)"
proof (cases "improves gc st nb")
  case False
  with assms show ?thesis by (simp add: relax_unchanged)
next
  case True
  show ?thesis
  proof (cases "map_of G (n_key nb)")
    case None
    with assms(2) have "n_key nb \<notin> set (openSet st)" by (auto simp: invSets_def)
    with assms(1) None show ?thesis
      unfolding relax_improved[OF True] invF_def
      by (auto simp: heur_def)
  next
    case (Some nd')
    with assms show ?thesis
      unfolding relax_improved[OF True] invF_def
      by (auto simp: heur_def)
  qed
qed

lemma relax_invChain:
  assumes ch: "invChain G s st" and sets: "invSets G st"
    and c: "c \<in> set (closedSet st)" and gc: "gScore st c = Some gc"
    and nd: "map_of G c = Some nd" and nb: "nb \<in> set (nd_neighbors nd)"
  shows "invChain G s (relax G ec c (Some gc) st nb)"
proof (cases "improves gc st nb")
  case False
  with ch show ?thesis by (simp add: relax_unchanged)
next
  case True
  let ?k = "n_key nb"
  let ?cf = "(cameFrom st)(?k \<mapsto> c)"
  let ?g = "(gScore st)(?k \<mapsto> gc + n_distance nb)"
  let ?st' = "relax G ec c (Some gc) st nb"
  from True have nc: "?k \<notin> set (closedSet st)" by (simp add: improves_def)
  from ch have rng: "\<forall>m d. cameFrom st m = Some d \<longrightarrow> d \<in> set (closedSet st)"
    by (simp add: invChain_def)
  from ch c gc obtain pc where pc: "chain (cameFrom st) c pc" "walk G s pc c gc"
    by (fastforce simp: invChain_def)
  have cf': "cameFrom ?st' = ?cf" and g': "gScore ?st' = ?g"
    by (simp_all add: relax_improved[OF True] split: option.splits)
  have opn: "set (openSet ?st') \<subseteq> insert ?k (set (openSet st))"
    by (auto simp: relax_improved[OF True] set_setAdd split: option.splits)
  have kdom: "?k \<in> dom (map_of G)" if "?k \<in> set (openSet ?st')"
    using that sets by (auto simp: relax_improved[OF True] set_setAdd invSets_def split: option.splits)
  have rng': "\<forall>m d. cameFrom ?st' m = Some d \<longrightarrow> d \<in> set (closedSet ?st')"
    using rng c by (auto simp: cf')
  have nodes: "\<exists>g p. gScore ?st' n = Some g \<and> chain (cameFrom ?st') n p \<and> walk G s p n g"
    if n: "n \<in> set (openSet ?st') \<union> set (closedSet ?st')" for n
  proof (cases "n = ?k")
    case True
    with n nc have "?k \<in> set (openSet ?st')" by simp
    from kdom[OF this] obtain nd' where nd': "map_of G ?k = Some nd'" by auto
    from walk_step[OF pc(2) nd nb nd'] have w: "walk G s (pc @ [?k]) ?k (gc + n_distance nb)" .
    from chain_update_self[OF pc(1) rng nc c] have "chain ?cf ?k (pc @ [?k])" .
    with w True show ?thesis by (auto simp: cf' g')
  next
    case False
    with n opn have "n \<in> set (openSet st) \<union> set (closedSet st)" by auto
    with ch obtain g p where gp: "gScore st n = Some g" "chain (cameFrom st) n p" "walk G s p n g"
      by (fastforce simp: invChain_def)
    from chain_update_other[OF gp(2) rng nc] False have "chain ?cf n p" by blast
    with gp False show ?thesis by (auto simp: cf' g')
  qed
  from rng' nodes show ?thesis unfolding invChain_def by blast
qed

lemma relax_invA:
  assumes "invA G s ec st" "s \<in> set (closedSet st)"
    and "c \<in> set (closedSet st)" "gScore st c = Some gc"
    and "map_of G c = Some nd" "nb \<in> set (nd_neighbors nd)"
  shows "invA G s ec (relax G ec c (Some gc) st nb)"
proof -
  from assms(1) have a: "invSets G st" "invStart s st" "invChain G s st" "invF G ec st"
    by (simp_all add: invA_def)
  from relax_invSets[OF a(1)] relax_invStart[OF a(2) assms(2)] relax_invF[OF a(4) a(1)]
    relax_invChain[OF a(3) a(1) assms(3-6)]
  show ?thesis by (simp add: invA_def)
qed

lemma relax_gScore_closed:
  "u \<in> set (closedSet st) \<Longrightarrow> gScore (relax G ec c g st nb) u = gScore st u"
  by (auto simp: relax_def Let_def split: option.splits)

lemma foldl_relax_closedSet [simp]:
  "closedSet (foldl (relax G ec c g) st nbs) = closedSet st"
  by (induction nbs arbitrary: st) simp_all

lemma foldl_relax_gScore_closed:
  "u \<in> set (closedSet st) \<Longrightarrow> gScore (foldl (relax G ec c g) st nbs) u = gScore st u"
  by (induction nbs arbitrary: st) (simp_all add: relax_gScore_closed)

lemma foldl_relax_invA:
  assumes "invA G s ec st" "s \<in> set (closedSet st)"
    and "c \<in> set (closedSet st)" "gScore st c = Some gc"
    and "map_of G c = Some nd" "set nbs \<subseteq> set (nd_neighbors nd)"
  shows "invA G s ec (foldl (relax G ec c (Some gc)) st nbs)"
  using assms
proof (induction nbs arbitrary: st)
  case Nil
  then show ?case by simp
next
  case (Cons nb nbs)
  let ?st' = "relax G ec c (Some gc) st nb"
  from Cons.prems have "invA G s ec ?st'" by (intro relax_invA[where nd = nd]) auto
  moreover from Cons.prems have "s \<in> set (closedSet ?st')" "c \<in> set (closedSet ?st')" by simp_all
  moreover from Cons.prems have "gScore ?st' c = Some gc" by (simp add: relax_gScore_closed)
  ultimately show ?case using Cons.prems(5,6) Cons.IH[of ?st'] by simp
qed

lemma expand_close:
  "expand G ec st c =
     (case map_of G c of None \<Rightarrow> close st c
      | Some nd \<Rightarrow> foldl (relax G ec c (gScore st c)) (close st c) (nd_neighbors nd))"
  by (simp add: expand_def close_def Let_def split: option.splits)

lemma close_invA:
  assumes "invA G s ec st" "c \<in> set (openSet st)"
  shows "invA G s ec (close st c) \<and> s \<in> set (closedSet (close st c)) \<and>
         c \<in> set (closedSet (close st c))"
proof -
  from assms have cn: "c \<notin> set (closedSet st)" by (auto simp: invA_def invSets_def)
  then have cl: "closedSet (close st c) = closedSet st @ [c]" by (simp add: close_def setAdd_def)
  have op: "openSet (close st c) = removeAll c (openSet st)" by (simp add: close_def)
  have g: "gScore (close st c) = gScore st" "cameFrom (close st c) = cameFrom st"
    "fScore (close st c) = fScore st" by (simp_all add: close_def)
  from assms cn have "invSets G (close st c)"
    unfolding invA_def invSets_def cl op g by (auto simp: distinct_removeAll)
  moreover from assms have "invStart s (close st c)"
    unfolding invA_def invStart_def cl op g by auto
  moreover from assms have "invChain G s (close st c)"
    unfolding invA_def invChain_def cl op g by (auto; blast)
  moreover from assms have "invF G ec (close st c)"
    unfolding invA_def invF_def cl op g by auto
  moreover from assms have "s \<in> set (closedSet (close st c))"
    unfolding invA_def invStart_def cl by auto
  ultimately show ?thesis by (simp add: invA_def cl)
qed

lemma expand_invA:
  assumes inv: "invA G s ec st" and c: "c \<in> set (openSet st)"
  shows "invA G s ec (expand G ec st c)"
proof -
  from close_invA[OF inv c] have a: "invA G s ec (close st c)"
    and b: "s \<in> set (closedSet (close st c))" "c \<in> set (closedSet (close st c))" by simp_all
  from inv c obtain gc where gc: "gScore st c = Some gc" by (fastforce simp: invA_def invF_def)
  then have gc': "gScore (close st c) c = Some gc" by (simp add: close_def)
  show ?thesis
  proof (cases "map_of G c")
    case None
    with a show ?thesis by (simp add: expand_close)
  next
    case (Some nd)
    from foldl_relax_invA[OF a b gc' Some subset_refl] Some gc show ?thesis
      by (simp add: expand_close)
  qed
qed

lemma expand_closedSet:
  "c \<notin> set (closedSet st) \<Longrightarrow> closedSet (expand G ec st c) = closedSet st @ [c]"
  by (simp add: expand_close close_def setAdd_def split: option.splits)

lemma aStarLoop_cases:
  assumes inv: "invA G s ec st"
    and stop: "\<And>st. invA G s ec st \<Longrightarrow>
        pickLowest (fScore st) (openSet st) = None \<or> pickLowest (fScore st) (openSet st) = Some [] \<Longrightarrow>
        P st None"
    and goal: "\<And>st p g. invA G s ec st \<Longrightarrow> pickLowest (fScore st) (openSet st) = Some e \<Longrightarrow>
        e \<in> set (openSet st) \<Longrightarrow> chain (cameFrom st) e p \<Longrightarrow> walk G s p e g \<Longrightarrow>
        gScore st e = Some g \<Longrightarrow> P st (Some p)"
    and step: "\<And>st c r. invA G s ec st \<Longrightarrow> pickLowest (fScore st) (openSet st) = Some c \<Longrightarrow>
        c \<in> set (openSet st) \<Longrightarrow> c \<noteq> e \<Longrightarrow> P (expand G ec st c) r \<Longrightarrow> P st r"
  shows "\<exists>r. aStarLoop G e ec st = Some r \<and> P st r"
  using inv
proof (induction "card (dom (map_of G) - set (closedSet st))" arbitrary: st rule: less_induct)
  case less
  note inv = less.prems
  have pick_empty: "pickLowest (fScore st) [] = None" by (simp add: pickLowest_def)
  show ?case
  proof (cases "pickLowest (fScore st) (openSet st)")
    case None
    then have "aStarLoop G e ec st = Some None"
      by (subst aStarLoop.simps) simp
    with stop[OF inv] None show ?thesis by simp
  next
    case (Some c)
    then have ne: "openSet st \<noteq> []" using pick_empty by auto
    from pickLowest_mem[OF Some] have cin: "c \<in> set (openSet st)" .
    show ?thesis
    proof (cases "c = []")
      case True
      with Some ne have "aStarLoop G e ec st = Some None"
        by (subst aStarLoop.simps) simp
      with stop[OF inv] Some True show ?thesis by simp
    next
      case cne: False
      show ?thesis
      proof (cases "c = e")
        case True
        from inv cin True obtain g p where gp: "gScore st e = Some g" "chain (cameFrom st) e p" "walk G s p e g"
          by (fastforce simp: invA_def invChain_def)
        from reconstruct_chain[OF gp(2), of "[]"] have "reconstruct (cameFrom st) e [e] = Some p" by simp
        with Some ne cne True have "aStarLoop G e ec st = Some (Some p)"
          by (subst aStarLoop.simps) simp
        with goal[OF inv _ _ gp(2,3,1)] Some True cin show ?thesis by simp
      next
        case False
        let ?st' = "expand G ec st c"
        from inv cin have cn: "c \<notin> set (closedSet st)" and cd: "c \<in> dom (map_of G)"
          by (auto simp: invA_def invSets_def)
        have inv': "invA G s ec ?st'" by (rule expand_invA[OF inv cin])
        have eq: "dom (map_of G) - set (closedSet ?st') = (dom (map_of G) - set (closedSet st)) - {c}"
          by (auto simp: expand_closedSet[OF cn])
        have mem: "c \<in> dom (map_of G) - set (closedSet st)" using cn cd by simp
        have fin: "finite (dom (map_of G) - set (closedSet st))" by (simp add: finite_dom_map_of)
        have "card (dom (map_of G) - set (closedSet ?st')) < card (dom (map_of G) - set (closedSet st))"
          unfolding eq by (rule card_Diff1_less[OF fin mem])
        from less.hyps[OF this inv'] obtain r where r: "aStarLoop G e ec ?st' = Some r" "P ?st' r" by blast
        from Some ne cne False r(1) have "aStarLoop G e ec st = Some r"
          by (subst aStarLoop.simps) simp
        with step[OF inv Some cin False r(2)] show ?thesis by simp
      qed
    qed
  qed
qed

lemma aStar_initial:
  "aStar G s e =
     (case (map_of G s, map_of G e) of
        (Some startNode, Some endNode) \<Rightarrow>
          aStarLoop G e (nd_centroid endNode)
            (initial s (distance (nd_centroid startNode) (nd_centroid endNode)))
      | _ \<Rightarrow> Some None)"
  by (simp add: aStar_def initial_def Let_def split: option.splits)

lemma initial_invA:
  assumes "map_of G s = Some sn"
  shows "invA G s ec (initial s (distance (nd_centroid sn) ec))"
proof -
  from assms have "walk G s [s] s 0" by (rule walk_start)
  moreover have "chain Map.empty s [s]" by (rule chain_root) simp
  ultimately show ?thesis using assms
    by (auto simp: invA_def invSets_def invStart_def invChain_def invF_def initial_def heur_def)
qed

lemma aStar_returns_walk:
  "\<exists>r. aStar G s e = Some r \<and> (\<forall>p. r = Some p \<longrightarrow> (\<exists>g. walk G s p e g))"
proof (cases "map_of G s")
  case None
  then show ?thesis by (simp add: aStar_initial)
next
  case sn: (Some sn)
  show ?thesis
  proof (cases "map_of G e")
    case None
    with sn show ?thesis by (simp add: aStar_initial)
  next
    case en: (Some en)
    have "\<exists>r. aStarLoop G e (nd_centroid en) (initial s (distance (nd_centroid sn) (nd_centroid en))) = Some r
            \<and> (\<forall>p. r = Some p \<longrightarrow> (\<exists>g. walk G s p e g))"
      by (rule aStarLoop_cases[OF initial_invA[OF sn], where P = "\<lambda>st r. \<forall>p. r = Some p \<longrightarrow> (\<exists>g. walk G s p e g)"]) auto
    with sn en show ?thesis by (simp add: aStar_initial)
  qed
qed

lemma relax_openSet_mono: "set (openSet st) \<subseteq> set (openSet (relax G ec c g st nb))"
  by (auto simp: relax_def Let_def set_setAdd split: option.splits)

lemma relax_gScore_le:
  "gScore st k = Some gv \<Longrightarrow> \<exists>gv'. gScore (relax G ec c g st nb) k = Some gv' \<and> gv' \<le> gv"
  by (auto simp: relax_def Let_def split: option.splits)

lemma relax_good_mono:
  assumes "good st u nb'" "u \<in> set (closedSet st)"
  shows "good (relax G ec c g st nb) u nb'"
proof -
  let ?st' = "relax G ec c g st nb"
  from assms(1) consider "n_key nb' \<in> set (closedSet st)"
    | gu gv where "n_key nb' \<in> set (openSet st)" "gScore st u = Some gu"
        "gScore st (n_key nb') = Some gv" "gv \<le> gu + n_distance nb'"
    by (auto simp: good_def)
  then show ?thesis
  proof cases
    case 1
    then show ?thesis by (simp add: good_def)
  next
    case 2
    from relax_gScore_le[OF 2(3), of G ec c g nb] obtain gv'
      where gv': "gScore ?st' (n_key nb') = Some gv'" "gv' \<le> gv" by blast
    from 2(1) relax_openSet_mono[of st G ec c g nb] have "n_key nb' \<in> set (openSet ?st')" by blast
    moreover from 2(2) assms(2) have "gScore ?st' u = Some gu" by (simp add: relax_gScore_closed)
    ultimately show ?thesis using gv' 2(4) by (auto simp: good_def)
  qed
qed

lemma relax_good_self:
  assumes sets: "invSets G st" and c: "c \<in> set (closedSet st)" and gc: "gScore st c = Some gc"
    and dom: "n_key nb \<in> dom (map_of G)"
  shows "good (relax G ec c (Some gc) st nb) c nb"
proof (cases "improves gc st nb")
  case True
  from dom obtain nd' where "map_of G (n_key nb) = Some nd'" by auto
  moreover from True c have "n_key nb \<noteq> c" by (auto simp: improves_def)
  ultimately show ?thesis using gc
    by (simp add: relax_improved[OF True] good_def set_setAdd)
next
  case False
  show ?thesis
  proof (cases "n_key nb \<in> set (closedSet st)")
    case True
    then show ?thesis by (simp add: good_def)
  next
    case nc: False
    with False obtain gv where gv: "gScore st (n_key nb) = Some gv" "\<not> gc + n_distance nb < gv"
      by (auto simp: improves_def split: option.splits)
    with sets dom nc have "n_key nb \<in> set (openSet st)" by (auto simp: invSets_def)
    with gv gc show ?thesis by (auto simp: relax_unchanged[OF False] good_def)
  qed
qed

lemma relax_relaxedExcept:
  assumes "relaxedExcept G st c (nb # rest)" "invSets G st"
    and "c \<in> set (closedSet st)" "gScore st c = Some gc"
  shows "relaxedExcept G (relax G ec c (Some gc) st nb) c rest"
  unfolding relaxedExcept_def
proof (intro ballI allI impI)
  fix u nd nb'
  let ?st' = "relax G ec c (Some gc) st nb"
  assume u: "u \<in> set (closedSet ?st')" and nd: "map_of G u = Some nd"
    and nb': "nb' \<in> set (nd_neighbors nd)" and dom: "n_key nb' \<in> dom (map_of G)"
  from u have u': "u \<in> set (closedSet st)" by simp
  from assms(1) u' nd nb' dom have "(u = c \<and> nb' \<in> set (nb # rest)) \<or> good st u nb'"
    unfolding relaxedExcept_def by blast
  then consider "u = c" "nb' = nb" | "u = c" "nb' \<in> set rest" | "good st u nb'" by auto
  then show "u = c \<and> nb' \<in> set rest \<or> good ?st' u nb'"
  proof cases
    case 1
    with relax_good_self[OF assms(2,3,4), of nb ec] dom show ?thesis by simp
  next
    case 2
    then show ?thesis by simp
  next
    case 3
    from relax_good_mono[OF 3 u'] show ?thesis by simp
  qed
qed

lemma relax_closedOptimal:
  "closedOptimal G s st \<Longrightarrow> closedOptimal G s (relax G ec c g st nb)"
  unfolding closedOptimal_def by (simp add: relax_gScore_closed)

lemma foldl_relax_invB:
  assumes "invA G s ec st" "s \<in> set (closedSet st)"
    and "c \<in> set (closedSet st)" "gScore st c = Some gc"
    and "map_of G c = Some nd" "set nbs \<subseteq> set (nd_neighbors nd)"
    and "closedOptimal G s st" "relaxedExcept G st c nbs"
  shows "invB G s (foldl (relax G ec c (Some gc)) st nbs)"
  using assms
proof (induction nbs arbitrary: st)
  case Nil
  from Nil.prems(8) have "relaxedExcept G st [] []" by (simp add: relaxedExcept_def)
  with Nil.prems(7) show ?case by (simp add: invB_def)
next
  case (Cons nb nbs)
  let ?st' = "relax G ec c (Some gc) st nb"
  from Cons.prems have a: "invA G s ec ?st'" by (intro relax_invA[where nd = nd]) auto
  from Cons.prems have b: "s \<in> set (closedSet ?st')" "c \<in> set (closedSet ?st')" by simp_all
  from Cons.prems have g: "gScore ?st' c = Some gc" by (simp add: relax_gScore_closed)
  from Cons.prems(6) have sub: "set nbs \<subseteq> set (nd_neighbors nd)" by simp
  from Cons.prems(1) have "invSets G st" by (simp add: invA_def)
  from relax_relaxedExcept[OF Cons.prems(8) this Cons.prems(3,4)]
  have r: "relaxedExcept G ?st' c nbs" .
  from relax_closedOptimal[OF Cons.prems(7)] have o: "closedOptimal G s ?st'" .
  from Cons.IH[OF a b g Cons.prems(5) sub o r] show ?case by simp
qed

lemma close_good:
  assumes "good st u nb"
  shows "good (close st c) u nb"
proof -
  have g: "gScore (close st c) = gScore st" by (simp add: close_def)
  have cl: "set (closedSet (close st c)) = insert c (set (closedSet st))" by (simp add: close_def)
  have op: "set (openSet (close st c)) = set (openSet st) - {c}" by (simp add: close_def)
  from assms consider "n_key nb \<in> set (closedSet st)"
    | gu gv where "n_key nb \<in> set (openSet st)" "gScore st u = Some gu"
        "gScore st (n_key nb) = Some gv" "gv \<le> gu + n_distance nb"
    unfolding good_def by blast
  then show ?thesis
  proof cases
    case 1
    then show ?thesis unfolding good_def cl by simp
  next
    case 2
    show ?thesis
    proof (cases "n_key nb = c")
      case True
      then show ?thesis unfolding good_def cl by simp
    next
      case False
      with 2(1) have "n_key nb \<in> set (openSet (close st c))" unfolding op by simp
      with 2(2,3,4) show ?thesis unfolding good_def g by blast
    qed
  qed
qed

lemma close_relaxedExcept:
  assumes "relaxedExcept G st [] []" "c \<notin> set (closedSet st)" "map_of G c = Some nd"
  shows "relaxedExcept G (close st c) c (nd_neighbors nd)"
  unfolding relaxedExcept_def
proof (intro ballI allI impI)
  fix u nd' nb
  assume u: "u \<in> set (closedSet (close st c))" and nd': "map_of G u = Some nd'"
    and nb: "nb \<in> set (nd_neighbors nd')" and dom: "n_key nb \<in> dom (map_of G)"
  have cl: "set (closedSet (close st c)) = insert c (set (closedSet st))" by (simp add: close_def)
  show "u = c \<and> nb \<in> set (nd_neighbors nd) \<or> good (close st c) u nb"
  proof (cases "u = c")
    case True
    with nd' assms(3) nb show ?thesis by simp
  next
    case False
    with u have uc: "u \<in> set (closedSet st)" unfolding cl by simp
    from assms(1) have "\<forall>u \<in> set (closedSet st). \<forall>nd nb. map_of G u = Some nd \<longrightarrow>
        nb \<in> set (nd_neighbors nd) \<longrightarrow> n_key nb \<in> dom (map_of G) \<longrightarrow> good st u nb"
      unfolding relaxedExcept_def by simp
    with uc nd' nb dom have "good st u nb" by blast
    from close_good[OF this] show ?thesis by simp
  qed
qed

lemma walk_cost_ge:
  assumes H: "weightsDominate G" and sn: "map_of G s = Some sn"
  shows "walk G s p v c \<Longrightarrow> \<exists>vn. map_of G v = Some vn \<and> distance (nd_centroid sn) (nd_centroid vn) \<le> c"
proof (induction rule: walk.induct)
  case (walk_start nd)
  with sn show ?case by (simp add: distance_self)
next
  case (walk_step p u c nd nb nd')
  from walk_step.IH walk_step.hyps(2) have "distance (nd_centroid sn) (nd_centroid nd) \<le> c" by simp
  moreover from H walk_step.hyps(2,3,4) have "distance (nd_centroid nd) (nd_centroid nd') \<le> n_distance nb"
    unfolding weightsDominate_def by blast
  moreover have "distance (nd_centroid sn) (nd_centroid nd')
      \<le> distance (nd_centroid sn) (nd_centroid nd) + distance (nd_centroid nd) (nd_centroid nd')"
    by (rule distance_triangle)
  ultimately show ?case using walk_step.hyps(4) by simp
qed

lemma walk_frontier:
  assumes H: "weightsDominate G" and A: "invA G s ec st" and B: "invB G s st"
  shows "walk G s q v cw \<Longrightarrow>
     (\<exists>y \<in> set (openSet st). \<exists>gy. gScore st y = Some gy \<and> gy + heur G ec y \<le> cw + heur G ec v) \<or>
     (v \<in> set (closedSet st) \<and> (\<exists>gv. gScore st v = Some gv \<and> gv \<le> cw))"
proof (induction rule: walk.induct)
  case (walk_start nd)
  from A have "gScore st s = Some 0" "s \<in> set (closedSet st) \<or> openSet st = [s]"
    by (auto simp: invA_def invStart_def)
  then show ?case by auto
next
  case (walk_step p u c nd nb nd')
  let ?v = "n_key nb"
  have cons: "heur G ec u \<le> n_distance nb + heur G ec ?v"
  proof -
    from H walk_step.hyps(2,3,4) have "distance (nd_centroid nd) (nd_centroid nd') \<le> n_distance nb"
      unfolding weightsDominate_def by blast
    moreover have "distance (nd_centroid nd) ec \<le> distance (nd_centroid nd) (nd_centroid nd') + distance (nd_centroid nd') ec"
      by (rule distance_triangle)
    ultimately show ?thesis using walk_step.hyps(2,4) by (simp add: heur_def)
  qed
  from walk_step.IH show ?case
  proof
    assume "\<exists>y \<in> set (openSet st). \<exists>gy. gScore st y = Some gy \<and> gy + heur G ec y \<le> c + heur G ec u"
    then obtain y gy where y: "y \<in> set (openSet st)" "gScore st y = Some gy" "gy + heur G ec y \<le> c + heur G ec u"
      by blast
    with cons have "gy + heur G ec y \<le> c + n_distance nb + heur G ec ?v" by simp
    with y(1,2) show ?thesis by blast
  next
    assume "u \<in> set (closedSet st) \<and> (\<exists>gv. gScore st u = Some gv \<and> gv \<le> c)"
    then obtain gu where u: "u \<in> set (closedSet st)" "gScore st u = Some gu" "gu \<le> c" by blast
    from walk_step.hyps(4) have dom: "?v \<in> dom (map_of G)" by auto
    from B u(1) walk_step.hyps(2,3) dom have "good st u nb"
      unfolding invB_def relaxedExcept_def by auto
    then consider "?v \<in> set (closedSet st)"
      | gu' gv where "?v \<in> set (openSet st)" "gScore st u = Some gu'" "gScore st ?v = Some gv"
          "gv \<le> gu' + n_distance nb"
      by (auto simp: good_def)
    then show ?thesis
    proof cases
      case 1
      with A obtain gv where gv: "gScore st ?v = Some gv" by (fastforce simp: invA_def invChain_def)
      from walk.walk_step[OF walk_step.hyps(1,2,3,4)] have "walk G s (p @ [?v]) ?v (c + n_distance nb)" .
      with B 1 gv have "gv \<le> c + n_distance nb" unfolding invB_def closedOptimal_def by blast
      with 1 gv show ?thesis by blast
    next
      case 2
      with u have "gv + heur G ec ?v \<le> c + n_distance nb + heur G ec ?v" by simp
      with 2(1,3) show ?thesis by blast
    qed
  qed
qed

lemma open_f_positive:
  assumes H: "weightsDominate G" and A: "invA G s ec st" and sn: "map_of G s = Some sn"
    and pos: "0 < distance (nd_centroid sn) ec"
    and y: "y \<in> set (openSet st)"
  shows "\<exists>gy. gScore st y = Some gy \<and> fScore st y = Some (gy + heur G ec y) \<and> 0 < gy + heur G ec y"
proof -
  from A y obtain gy p where gy: "gScore st y = Some gy" "walk G s p y gy"
    by (fastforce simp: invA_def invChain_def)
  from A y gy(1) have f: "fScore st y = Some (gy + heur G ec y)" by (fastforce simp: invA_def invF_def)
  from walk_cost_ge[OF H sn gy(2)] obtain yn where yn: "map_of G y = Some yn"
    "distance (nd_centroid sn) (nd_centroid yn) \<le> gy" by blast
  have "distance (nd_centroid sn) ec \<le> distance (nd_centroid sn) (nd_centroid yn) + distance (nd_centroid yn) ec"
    by (rule distance_triangle)
  with yn pos have "0 < gy + heur G ec y" by (simp add: heur_def)
  with gy(1) f show ?thesis by simp
qed

lemma picked_optimal:
  assumes H: "weightsDominate G" and A: "invA G s ec st" and B: "invB G s st"
    and sn: "map_of G s = Some sn" and pos: "0 < distance (nd_centroid sn) ec"
    and pick: "pickLowest (fScore st) (openSet st) = Some c"
    and gc: "gScore st c = Some gc" and w: "walk G s q c cw"
  shows "gc \<le> cw"
proof -
  from pickLowest_spec[of "fScore st" "openSet st"] pick obtain l where
    c: "c \<in> set (openSet st)" and l: "fOrInfinity (fScore st) c = Some l"
    and low: "\<forall>k \<in> set (openSet st). \<forall>f. fOrInfinity (fScore st) k = Some f \<longrightarrow> l \<le> f"
    by blast
  from open_f_positive[OF H A sn pos c] gc have fc: "fScore st c = Some (gc + heur G ec c)" by simp
  with l have l_eq: "l = gc + heur G ec c" by (auto simp: fOrInfinity_def split: if_splits)
  from A c have cn: "c \<notin> set (closedSet st)" by (auto simp: invA_def invSets_def)
  from walk_frontier[OF H A B w] cn obtain y gy where
    y: "y \<in> set (openSet st)" "gScore st y = Some gy" "gy + heur G ec y \<le> cw + heur G ec c"
    by blast
  from open_f_positive[OF H A sn pos y(1)] y(2)
  have "fScore st y = Some (gy + heur G ec y)" "0 < gy + heur G ec y" by simp_all
  then have "fOrInfinity (fScore st) y = Some (gy + heur G ec y)" by (simp add: fOrInfinity_def)
  with low y(1) have "l \<le> gy + heur G ec y" by blast
  with l_eq y(3) show ?thesis by simp
qed

lemma expand_invB:
  assumes H: "weightsDominate G" and A: "invA G s ec st" and B: "invB G s st"
    and sn: "map_of G s = Some sn" and pos: "0 < distance (nd_centroid sn) ec"
    and pick: "pickLowest (fScore st) (openSet st) = Some c"
  shows "invB G s (expand G ec st c)"
proof -
  from pickLowest_mem[OF pick] have cin: "c \<in> set (openSet st)" .
  from A cin have cn: "c \<notin> set (closedSet st)" and cd: "c \<in> dom (map_of G)"
    by (auto simp: invA_def invSets_def)
  from cd obtain nd where nd: "map_of G c = Some nd" by auto
  from A cin obtain gc where gc: "gScore st c = Some gc" by (fastforce simp: invA_def invF_def)
  from close_invA[OF A cin] have a: "invA G s ec (close st c)"
    and b: "s \<in> set (closedSet (close st c))" "c \<in> set (closedSet (close st c))" by simp_all
  from gc have gc': "gScore (close st c) c = Some gc" by (simp add: close_def)
  have o: "closedOptimal G s (close st c)"
    unfolding closedOptimal_def
  proof (intro ballI allI impI)
    fix u g q cw
    assume u: "u \<in> set (closedSet (close st c))" and g: "gScore (close st c) u = Some g"
      and w: "walk G s q u cw"
    show "g \<le> cw"
    proof (cases "u = c")
      case True
      with g gc' have "g = gc" by simp
      with picked_optimal[OF H A B sn pos pick gc] w True show ?thesis by simp
    next
      case False
      with u have "u \<in> set (closedSet st)" by (simp add: close_def set_setAdd)
      moreover from g have "gScore st u = Some g" by (simp add: close_def)
      ultimately show ?thesis using B w unfolding invB_def closedOptimal_def by blast
    qed
  qed
  from B have "relaxedExcept G st [] []" by (simp add: invB_def)
  from close_relaxedExcept[OF this cn nd] have r: "relaxedExcept G (close st c) c (nd_neighbors nd)" .
  from foldl_relax_invB[OF a b gc' nd subset_refl o r] nd gc show ?thesis
    by (simp add: expand_close)
qed

lemma initial_invB: "invB G s (initial s h)"
  by (simp add: invB_def closedOptimal_def relaxedExcept_def initial_def)

lemma aStar_optimal_aux:
  assumes H: "weightsDominate G"
  shows "\<exists>r. aStar G s e = Some r \<and>
           (\<forall>p. r = Some p \<longrightarrow> (\<exists>g. walk G s p e g \<and> (\<forall>q c. walk G s q e c \<longrightarrow> g \<le> c)))"
proof (cases "map_of G s")
  case None
  then show ?thesis by (simp add: aStar_initial)
next
  case sn: (Some sn)
  show ?thesis
  proof (cases "map_of G e")
    case None
    with sn show ?thesis by (simp add: aStar_initial)
  next
    case en: (Some en)
    let ?ec = "nd_centroid en"
    let ?h = "distance (nd_centroid sn) ?ec"
    show ?thesis
    proof (cases "?h = 0")
      case True
      have "pickLowest (fScore (initial s ?h)) (openSet (initial s ?h)) = None"
        using True by (simp add: initial_def pickLowest_def pickStep_def fOrInfinity_def)
      then have "aStarLoop G e ?ec (initial s ?h) = Some None"
        by (subst aStarLoop.simps) simp
      with sn en show ?thesis by (simp add: aStar_initial)
    next
      case False
      with distance_nonneg[of "nd_centroid sn" ?ec] have pos: "0 < ?h" by simp
      let ?P = "\<lambda>st r. invB G s st \<longrightarrow>
                 (\<forall>p. r = Some p \<longrightarrow> (\<exists>g. walk G s p e g \<and> (\<forall>q c. walk G s q e c \<longrightarrow> g \<le> c)))"
      have "\<exists>r. aStarLoop G e ?ec (initial s ?h) = Some r \<and> ?P (initial s ?h) r"
      proof (rule aStarLoop_cases[OF initial_invA[OF sn], where P = ?P])
        fix st
        show "?P st None" by simp
      next
        fix st p g
        assume A: "invA G s ?ec st" and pick: "pickLowest (fScore st) (openSet st) = Some e"
          and w: "walk G s p e g" and g: "gScore st e = Some g"
        show "?P st (Some p)"
        proof (intro impI allI)
          fix p'
          assume B: "invB G s st" and "Some p = Some p'"
          then have "p' = p" by simp
          moreover have "\<forall>q c. walk G s q e c \<longrightarrow> g \<le> c"
            using picked_optimal[OF H A B sn pos pick g] by blast
          ultimately show "\<exists>g. walk G s p' e g \<and> (\<forall>q c. walk G s q e c \<longrightarrow> g \<le> c)"
            using w by blast
        qed
      next
        fix st c r
        assume A: "invA G s ?ec st" and pick: "pickLowest (fScore st) (openSet st) = Some c"
          and IH: "?P (expand G ?ec st c) r"
        show "?P st r"
        proof
          assume B: "invB G s st"
          from expand_invB[OF H A B sn pos pick] IH
          show "\<forall>p. r = Some p \<longrightarrow> (\<exists>g. walk G s p e g \<and> (\<forall>q c. walk G s q e c \<longrightarrow> g \<le> c))" by blast
        qed
      qed
      with initial_invB[of G s ?h] sn en show ?thesis by (simp add: aStar_initial)
    qed
  qed
qed

lemma distance_eq_0_iff: "distance a b = 0 \<longleftrightarrow> a = b"
  by (auto simp: distance_def Let_def prod_eq_iff)

lemma aStar_coincident:
  assumes "map_of G s = Some sn" "map_of G e = Some en" "nd_centroid sn = nd_centroid en"
  shows "aStar G s e = Some None"
proof -
  let ?h = "distance (nd_centroid sn) (nd_centroid en)"
  from assms(3) have h: "?h = 0" by (simp add: distance_self)
  have "pickLowest (fScore (initial s ?h)) (openSet (initial s ?h)) = None"
    using h by (simp add: initial_def pickLowest_def pickStep_def fOrInfinity_def)
  then have "aStarLoop G e (nd_centroid en) (initial s ?h) = Some None"
    by (subst aStarLoop.simps) simp
  with assms(1,2) show ?thesis by (simp add: aStar_initial)
qed

lemma aStar_finds:
  assumes H: "weightsDominate G" and sn: "map_of G s = Some sn" and en: "map_of G e = Some en"
    and ne: "nd_centroid sn \<noteq> nd_centroid en" and keys: "[] \<notin> fst ` set G"
    and w: "walk G s q e c"
  shows "\<exists>p. aStar G s e = Some (Some p)"
proof -
  let ?ec = "nd_centroid en"
  let ?h = "distance (nd_centroid sn) ?ec"
  from ne distance_eq_0_iff[of "nd_centroid sn" ?ec] distance_nonneg[of "nd_centroid sn" ?ec]
  have pos: "0 < ?h" by simp
  let ?P = "\<lambda>st r. invB G s st \<and> e \<notin> set (closedSet st) \<longrightarrow> r \<noteq> None"
  have "\<exists>r. aStarLoop G e ?ec (initial s ?h) = Some r \<and> ?P (initial s ?h) r"
  proof (rule aStarLoop_cases[OF initial_invA[OF sn], where P = ?P])
    fix st
    assume A: "invA G s ?ec st"
      and stop: "pickLowest (fScore st) (openSet st) = None \<or> pickLowest (fScore st) (openSet st) = Some []"
    have "\<not> (invB G s st \<and> e \<notin> set (closedSet st))"
    proof
      assume B: "invB G s st \<and> e \<notin> set (closedSet st)"
      then have B1: "invB G s st" and B2: "e \<notin> set (closedSet st)" by simp_all
      from walk_frontier[OF H A B1 w] B2 obtain y where y: "y \<in> set (openSet st)" by blast
      from open_f_positive[OF H A sn pos y] obtain gy where
        "fScore st y = Some (gy + heur G ?ec y)" "0 < gy + heur G ?ec y" by blast
      then have fy: "fOrInfinity (fScore st) y = Some (gy + heur G ?ec y)"
        by (simp add: fOrInfinity_def)
      from stop show False
      proof
        assume "pickLowest (fScore st) (openSet st) = None"
        with pickLowest_spec[of "fScore st" "openSet st"] y
        have "fOrInfinity (fScore st) y = None" by blast
        with fy show False by simp
      next
        assume "pickLowest (fScore st) (openSet st) = Some []"
        from pickLowest_mem[OF this] have "[] \<in> set (openSet st)" .
        with A have "[] \<in> dom (map_of G)" by (auto simp: invA_def invSets_def)
        with keys show False by (simp add: dom_map_of_conv_image_fst)
      qed
    qed
    then show "?P st None" by simp
  next
    fix st p g
    show "?P st (Some p)" by simp
  next
    fix st c r
    assume A: "invA G s ?ec st" and pick: "pickLowest (fScore st) (openSet st) = Some c"
      and cin: "c \<in> set (openSet st)" and ce: "c \<noteq> e"
      and IH: "?P (expand G ?ec st c) r"
    show "?P st r"
    proof
      assume B: "invB G s st \<and> e \<notin> set (closedSet st)"
      from A cin have cn: "c \<notin> set (closedSet st)" by (auto simp: invA_def invSets_def)
      from B expand_invB[OF H A _ sn pos pick] have "invB G s (expand G ?ec st c)" by blast
      moreover from B ce have "e \<notin> set (closedSet (expand G ?ec st c))"
        by (simp add: expand_closedSet[OF cn])
      ultimately show "r \<noteq> None" using IH by blast
    qed
  qed
  moreover have "invB G s (initial s ?h) \<and> e \<notin> set (closedSet (initial s ?h))"
    by (simp add: initial_invB) (simp add: initial_def)
  ultimately obtain r where "aStarLoop G e ?ec (initial s ?h) = Some r" "r \<noteq> None" by blast
  with sn en show ?thesis by (auto simp: aStar_initial)
qed

text \<open>
  Every run of \<^verbatim>\<open>aStar\<close> returns: each iteration that does not return moves one node of the
  graph into the closed set.
\<close>

lemma aStar_returns: "\<exists>r. aStar G s e = Some r"
  using aStar_returns_walk[of G s e] by blast

lemma aStar_path_is_walk: "aStar G s e = Some (Some p) \<Longrightarrow> \<exists>g. walk G s p e g"
  using aStar_returns_walk[of G s e] by auto

text \<open>
  When the weights dominate the distances, a path that \<^verbatim>\<open>aStar\<close> returns is a lightest walk.
\<close>

lemma aStar_optimal:
  assumes "weightsDominate G" "aStar G s e = Some (Some p)"
  shows "\<exists>g. walk G s p e g \<and> (\<forall>q c. walk G s q e c \<longrightarrow> g \<le> c)"
  using aStar_optimal_aux[OF assms(1), of s e] assms(2) by auto

lemma aStar_unreachable:
  assumes "\<not> (\<exists>q c. walk G s q e c)"
  shows "aStar G s e = Some None"
proof -
  from aStar_returns_walk[of G s e] obtain r where
    r: "aStar G s e = Some r" "\<forall>p. r = Some p \<longrightarrow> (\<exists>g. walk G s p e g)" by blast
  with assms have "r = None" by (cases r) auto
  with r(1) show ?thesis by simp
qed

lemma walk_nodes: "walk G s p v c \<Longrightarrow> set p \<subseteq> dom (map_of G)"
  by (induction rule: walk.induct) auto

lemma exStacked_groups: "groupRoomsByName exStacked = Inr exStackedGroups"
  by code_simp

lemma exStacked_names:
  "isNavigableRoom ''Room101''" "isNavigableRoom ''Stairs''" "isNavigableRoom ''Room201''"
  "\<not> isCorridor ''Room101''" "\<not> isCorridor ''Stairs''" "\<not> isCorridor ''Room201''"
  "\<not> isVerticalConnector ''Room101''" "isVerticalConnector ''Stairs''"
  "\<not> isVerticalConnector ''Room201''"
  "toLowerCase ''Room101'' = ''room101''" "toLowerCase ''Stairs'' = ''stairs''"
  "toLowerCase ''Room201'' = ''room201''"
  by code_simp+

lemma exStacked_keys:
  "roomKey ''Room101'' 1 = ''Room101_F1''" "roomKey ''Stairs'' 2 = ''Stairs_F2''"
  "roomKey ''Room201'' 2 = ''Room201_F2''"
  by code_simp+

lemma exStacked_graph: "buildRoomGraph exStackedGroups None = exStackedGraph"
  by (simp add: exStackedGroups_def exStackedGraph_def edge_def buildRoomGraph_def filteredRooms_def
      graphNode_def neighborOf_def exRoom101_def exStairs_def exRoom201_def mkRoom_def
      exStacked_names exStacked_keys mapSet_def mapHas_def List.map_filter_def distance_same_lat)

lemma exStacked_lookup:
  "map_of exStackedGraph ''Room101_F1'' = Some (snd (exStackedGraph ! 0))"
  "map_of exStackedGraph ''Stairs_F2'' = Some (snd (exStackedGraph ! 1))"
  "map_of exStackedGraph ''Room201_F2'' = Some (snd (exStackedGraph ! 2))"
  by (simp_all add: exStackedGraph_def)

lemma exStacked_walk:
  "walk exStackedGraph ''Room101_F1'' [''Room101_F1'', ''Stairs_F2'', ''Room201_F2''] ''Room201_F2'' (32 / 1000)"
proof -
  have w0: "walk exStackedGraph ''Room101_F1'' [''Room101_F1''] ''Room101_F1'' 0"
    by (rule walk_start[OF exStacked_lookup(1)])
  have e1: "edge ''Stairs_F2'' ''Stairs'' 2 (2 / 100) \<in> set (nd_neighbors (snd (exStackedGraph ! 0)))"
    by (simp add: exStackedGraph_def)
  have e2: "edge ''Room201_F2'' ''Room201'' 2 (12 / 1000) \<in> set (nd_neighbors (snd (exStackedGraph ! 1)))"
    by (simp add: exStackedGraph_def)
  have k1: "map_of exStackedGraph (n_key (edge ''Stairs_F2'' ''Stairs'' 2 (2 / 100))) = Some (snd (exStackedGraph ! 1))"
    by (simp add: edge_def exStacked_lookup)
  have k2: "map_of exStackedGraph (n_key (edge ''Room201_F2'' ''Room201'' 2 (12 / 1000))) = Some (snd (exStackedGraph ! 2))"
    by (simp add: edge_def exStacked_lookup)
  from walk_step[OF w0 exStacked_lookup(1) e1 k1]
  have w1: "walk exStackedGraph ''Room101_F1'' [''Room101_F1'', ''Stairs_F2''] ''Stairs_F2'' (2 / 100)"
    by (simp add: edge_def)
  from walk_step[OF w1 exStacked_lookup(2) e2 k2] show ?thesis
    by (simp add: edge_def)
qed

lemma exStacked_weights: "weightsDominate exStackedGraph"
proof -
  have "distance (nd_centroid nd) (nd_centroid nd') \<le> n_distance nb"
    if "map_of exStackedGraph u = Some nd" "nb \<in> set (nd_neighbors nd)"
       "map_of exStackedGraph (n_key nb) = Some nd'" for u nd nb nd'
  proof -
    from that(1,2) have
      "nd = snd (exStackedGraph ! 0) \<and> nb = edge ''Stairs_F2'' ''Stairs'' 2 (2 / 100) \<or>
       nd = snd (exStackedGraph ! 1) \<and> nb = edge ''Room101_F1'' ''Room101'' 1 (2 / 100) \<or>
       nd = snd (exStackedGraph ! 1) \<and> nb = edge ''Room201_F2'' ''Room201'' 2 (12 / 1000) \<or>
       nd = snd (exStackedGraph ! 2) \<and> nb = edge ''Stairs_F2'' ''Stairs'' 2 (12 / 1000)"
      by (auto simp: exStackedGraph_def split: if_splits)
    then consider
        "nd = snd (exStackedGraph ! 0)" "nb = edge ''Stairs_F2'' ''Stairs'' 2 (2 / 100)"
      | "nd = snd (exStackedGraph ! 1)" "nb = edge ''Room101_F1'' ''Room101'' 1 (2 / 100)"
      | "nd = snd (exStackedGraph ! 1)" "nb = edge ''Room201_F2'' ''Room201'' 2 (12 / 1000)"
      | "nd = snd (exStackedGraph ! 2)" "nb = edge ''Stairs_F2'' ''Stairs'' 2 (12 / 1000)"
      by blast
    then show ?thesis
    proof cases
      case 1
      with that(3) have "nd' = snd (exStackedGraph ! 1)" by (simp add: edge_def exStacked_lookup)
      with 1 show ?thesis by (simp add: edge_def exStackedGraph_def distance_same_lat)
    next
      case 2
      with that(3) have "nd' = snd (exStackedGraph ! 0)" by (simp add: edge_def exStacked_lookup)
      with 2 show ?thesis by (simp add: edge_def exStackedGraph_def distance_same_lat)
    next
      case 3
      with that(3) have "nd' = snd (exStackedGraph ! 2)" by (simp add: edge_def exStacked_lookup)
      with 3 show ?thesis by (simp add: edge_def exStackedGraph_def distance_same_lat)
    next
      case 4
      with that(3) have "nd' = snd (exStackedGraph ! 1)" by (simp add: edge_def exStacked_lookup)
      with 4 show ?thesis by (simp add: edge_def exStackedGraph_def distance_same_lat)
    qed
  qed
  then show ?thesis unfolding weightsDominate_def by blast
qed

lemma exStacked_no_empty_key: "[] \<notin> fst ` set exStackedGraph"
  by (simp add: exStackedGraph_def)

text \<open>
  Claim C1. For start and end keys that are nodes of the graph, \<^verbatim>\<open>aStar\<close> always returns.
  When every edge weighs at least the Euclidean distance between the centroids of its
  endpoints, a path it returns is a walk from start to end whose total edge weight is at most
  that of every walk from start to end; and if moreover no key is the empty string, the end
  is reachable from the start and the centroids of the start and end nodes differ, it does
  return such a path. It returns \<^verbatim>\<open>null\<close> when the end is not reachable. But it also returns
  \<^verbatim>\<open>null\<close> whenever the centroids of the start and end nodes coincide (in particular when
  start and end are the same key), whether or not a path exists: the f-score of the start
  node is then 0, \<^verbatim>\<open>fScore.get(key) || Infinity\<close> reads it as \<^verbatim>\<open>Infinity\<close> and no node is
  selected. On such inputs the claim fails.
\<close>

theorem aStar_shortest_unless_coincident:
  assumes "map_of graph startKey = Some startNode" "map_of graph endKey = Some endNode"
  shows "(\<exists>r. aStar graph startKey endKey = Some r) \<and>
         (nd_centroid startNode = nd_centroid endNode \<longrightarrow> aStar graph startKey endKey = Some None) \<and>
         (\<not> (\<exists>q c. walk graph startKey q endKey c) \<longrightarrow> aStar graph startKey endKey = Some None) \<and>
         (weightsDominate graph \<longrightarrow>
            (\<forall>p. aStar graph startKey endKey = Some (Some p) \<longrightarrow>
               (\<exists>g. walk graph startKey p endKey g \<and>
                    (\<forall>q c. walk graph startKey q endKey c \<longrightarrow> g \<le> c)))) \<and>
         (weightsDominate graph \<and> [] \<notin> fst ` set graph \<and>
          nd_centroid startNode \<noteq> nd_centroid endNode \<and> (\<exists>q c. walk graph startKey q endKey c) \<longrightarrow>
            (\<exists>p g. aStar graph startKey endKey = Some (Some p) \<and> walk graph startKey p endKey g \<and>
                   (\<forall>q c. walk graph startKey q endKey c \<longrightarrow> g \<le> c)))"
proof (intro conjI impI allI)
  show "\<exists>r. aStar graph startKey endKey = Some r" by (rule aStar_returns)
next
  assume "nd_centroid startNode = nd_centroid endNode"
  with assms show "aStar graph startKey endKey = Some None" by (rule aStar_coincident)
next
  assume "\<not> (\<exists>q c. walk graph startKey q endKey c)"
  then show "aStar graph startKey endKey = Some None" by (rule aStar_unreachable)
next
  fix p
  assume "weightsDominate graph" "aStar graph startKey endKey = Some (Some p)"
  then show "\<exists>g. walk graph startKey p endKey g \<and> (\<forall>q c. walk graph startKey q endKey c \<longrightarrow> g \<le> c)"
    by (rule aStar_optimal)
next
  assume h: "weightsDominate graph \<and> [] \<notin> fst ` set graph \<and>
          nd_centroid startNode \<noteq> nd_centroid endNode \<and> (\<exists>q c. walk graph startKey q endKey c)"
  then obtain q c where w: "walk graph startKey q endKey c" by blast
  from h have H: "weightsDominate graph" and k: "[] \<notin> fst ` set graph"
    and ne: "nd_centroid startNode \<noteq> nd_centroid endNode" by simp_all
  from aStar_finds[OF H assms ne k w] obtain p where
    p: "aStar graph startKey endKey = Some (Some p)" by blast
  from aStar_optimal[OF H p] p
  show "\<exists>p g. aStar graph startKey endKey = Some (Some p) \<and> walk graph startKey p endKey g \<and>
                   (\<forall>q c. walk graph startKey q endKey c \<longrightarrow> g \<le> c)" by blast
qed

text \<open>
  The stacked rooms: Room101 (floor 1) and Room201 (floor 2) have the same centroid, the walk
  Room101, Stairs, Room201 of weight 0.032 exists, every weight dominates the distance, and
  \<^verbatim>\<open>aStar\<close> returns \<^verbatim>\<open>null\<close>.
\<close>

theorem aStar_shortest_unless_coincident_witness:
  "groupRoomsByName exStacked = Inr exStackedGroups \<and>
   buildRoomGraph exStackedGroups None = exStackedGraph \<and>
   weightsDominate exStackedGraph \<and>
   walk exStackedGraph ''Room101_F1'' [''Room101_F1'', ''Stairs_F2'', ''Room201_F2''] ''Room201_F2'' (32 / 1000) \<and>
   aStar exStackedGraph ''Room101_F1'' ''Room201_F2'' = Some None"
proof -
  have "nd_centroid (snd (exStackedGraph ! 0)) = nd_centroid (snd (exStackedGraph ! 2))"
    by (simp add: exStackedGraph_def)
  with aStar_shortest_unless_coincident[OF exStacked_lookup(1) exStacked_lookup(3)]
  have "aStar exStackedGraph ''Room101_F1'' ''Room201_F2'' = Some None" by blast
  with exStacked_groups exStacked_graph exStacked_weights exStacked_walk show ?thesis by simp
qed

subsection \<open>Route finder\<close>

lemma error_is_TypeError: "(e :: error) = TypeError"
  by (cases e) simp

lemma list_all2_lhs_memD: "list_all2 P xs ys \<Longrightarrow> x \<in> set xs \<Longrightarrow> \<exists>y \<in> set ys. P x y"
  by (induction rule: list_all2_induct) auto

lemma getCentroid_Inr_ringed: "getCentroid f = Inr c \<Longrightarrow> ringed f"
  by (auto simp: getCentroid_def ringed_def split: sum.splits)

lemma ringed_getCentroid: "ringed f \<Longrightarrow> \<exists>c. getCentroid f = Inr c"
  by (auto simp: getCentroid_def ringed_def)

lemma feature_in_group:
  assumes "f \<in> set features"
  shows "\<exists>k n fl ms. (k, n, fl, ms) \<in> set (groupFeatures features) \<and> f \<in> set ms"
proof -
  let ?G = "groupFeatures features"
  have inv: "groupInv features ?G" by (rule groupInv_groupFeatures)
  then have d: "distinct (map fst ?G)" and ks: "set (map fst ?G) = featureKey ` set features"
    by (simp_all add: groupInv_def)
  from assms ks have "featureKey f \<in> set (map fst ?G)" by blast
  then obtain n fl ms where m: "(featureKey f, n, fl, ms) \<in> set ?G" by auto
  with d have "map_of ?G (featureKey f) = Some (n, fl, ms)" by simp
  with inv have "ms = filter (\<lambda>g. featureKey g = featureKey f) features"
    unfolding groupInv_def by blast
  with assms have "f \<in> set ms" by simp
  with m show ?thesis by blast
qed

lemma groupRoomsByName_Inr_ringed:
  assumes "groupRoomsByName features = Inr roomGroups" "f \<in> set features"
  shows "ringed f"
proof -
  from feature_in_group[OF assms(2)] obtain k n fl ms where
    m: "(k, n, fl, ms) \<in> set (groupFeatures features)" and f: "f \<in> set ms" by blast
  from list_all2_lhs_memD[OF groupRoomsByName_rel[OF assms(1)] m]
  obtain kr where "finishGroup (k, n, fl, ms) = Inr kr" by blast
  from finishGroup_Inr[OF this] obtain cs where "mapM getCentroid ms = Inr cs" by blast
  from list_all2_lhs_memD[OF mapM_Inr[OF this] f] obtain c where "getCentroid f = Inr c" by blast
  then show ?thesis by (rule getCentroid_Inr_ringed)
qed

lemma groupRoomsByName_throws:
  assumes "f \<in> set features" "\<not> ringed f"
  shows "groupRoomsByName features = Inl TypeError"
proof (cases "groupRoomsByName features")
  case (Inl e)
  then show ?thesis by (simp add: error_is_TypeError[of e])
next
  case (Inr roomGroups)
  from groupRoomsByName_Inr_ringed[OF Inr assms(1)] assms(2) show ?thesis by simp
qed

lemma groupRoomsByName_total:
  assumes "\<forall>f \<in> set features. ringed f"
  shows "\<exists>roomGroups. groupRoomsByName features = Inr roomGroups"
proof -
  have "\<exists>kr. finishGroup kg = Inr kr" if "kg \<in> set (groupFeatures features)" for kg
  proof -
    obtain k n fl ms where kg: "kg = (k, n, fl, ms)" by (cases kg) auto
    from groupFeatures_members_nonempty[OF that[unfolded kg]]
    have "set ms \<subseteq> set features" by auto
    with assms have "\<forall>f \<in> set ms. \<exists>c. getCentroid f = Inr c" by (blast intro: ringed_getCentroid)
    from mapM_total[OF this] obtain cs where "mapM getCentroid ms = Inr cs" by blast
    then show ?thesis by (simp add: kg finishGroup_def)
  qed
  then have "\<forall>kg \<in> set (groupFeatures features). \<exists>kr. finishGroup kg = Inr kr" by blast
  from mapM_total[OF this] show ?thesis by (simp add: groupRoomsByName_def)
qed

lemma filteredRooms_subset: "set (filteredRooms roomGroups targetFloor) \<subseteq> snd ` set roomGroups"
  by (auto simp: filteredRooms_def Let_def split: option.splits)

lemma room_features_subset:
  assumes "groupRoomsByName features = Inr roomGroups" "(key, r) \<in> set roomGroups"
  shows "set (r_features r) \<subseteq> set features"
proof -
  from assms(2) have "(key, r_name r, r_floor r, r_features r) \<in>
      set (map (\<lambda>(key, r). (key, r_name r, r_floor r, r_features r)) roomGroups)" by force
  with groupRoomsByName_shape[OF assms(1)]
  have "(key, r_name r, r_floor r, r_features r) \<in> set (groupFeatures features)" by simp
  from groupFeatures_members_nonempty[OF this] show ?thesis by auto
qed

lemma graph_node_room:
  assumes "groupRoomsByName features = Inr roomGroups"
    and "map_of (buildRoomGraph roomGroups targetFloor) k = Some nd"
  shows "nd_room nd \<in> set (filteredRooms roomGroups targetFloor) \<and> k = roomKeyOf (nd_room nd)"
proof -
  from map_of_SomeD[OF assms(2)]
  have "(k, nd) \<in> set (buildRoomGraph roomGroups targetFloor)" .
  then have "(k, nd) \<in> set (map (\<lambda>r. (roomKeyOf r, graphNode (filteredRooms roomGroups targetFloor) r))
           (filteredRooms roomGroups targetFloor))"
    by (simp only: buildRoomGraph_alist[OF filteredRooms_distinct[OF assms(1)]])
  then show ?thesis by (auto simp: graphNode_def)
qed

lemma graph_features_ringed:
  assumes "groupRoomsByName features = Inr roomGroups"
    and "map_of (buildRoomGraph roomGroups targetFloor) k = Some nd"
  shows "\<forall>f \<in> set (r_features (nd_room nd)). ringed f"
proof -
  from graph_node_room[OF assms] filteredRooms_subset[of roomGroups targetFloor]
  obtain key where "(key, nd_room nd) \<in> set roomGroups" by auto
  from room_features_subset[OF assms(1) this]
  show ?thesis using groupRoomsByName_Inr_ringed[OF assms(1)] by blast
qed

lemma addCorridorWaypoints_total:
  assumes wf: "\<forall>q \<in> set pathCoords. \<forall>f \<in> set (rp_features q). ringed f"
  shows "\<exists>out. addCorridorWaypoints pathCoords = Inr out"
proof -
  have "\<forall>i \<in> set [0..<length pathCoords]. \<exists>piece. enhanceStep pathCoords i = Inr piece"
    using enhanceStep_total[OF wf] by blast
  from mapM_total[OF this] obtain pieces where
    "mapM (enhanceStep pathCoords) [0..<length pathCoords] = Inr pieces" by blast
  then show ?thesis by (simp add: addCorridorWaypoints_def)
qed

lemma pathPoints_total:
  assumes g: "groupRoomsByName features = Inr roomGroups"
    and keys: "set pathKeys \<subseteq> dom (map_of (buildRoomGraph roomGroups targetFloor))"
  shows "\<exists>pathCoords. mapM (pathPoint (buildRoomGraph roomGroups targetFloor)) pathKeys = Inr pathCoords \<and>
           (\<forall>q \<in> set pathCoords. \<forall>f \<in> set (rp_features q). ringed f)"
proof -
  let ?G = "buildRoomGraph roomGroups targetFloor"
  have one: "\<exists>q. pathPoint ?G k = Inr q" if "k \<in> set pathKeys" for k
    using that keys by (auto simp: pathPoint_def)
  then have "\<forall>k \<in> set pathKeys. \<exists>q. pathPoint ?G k = Inr q" by blast
  from mapM_total[OF this] obtain pathCoords where pc: "mapM (pathPoint ?G) pathKeys = Inr pathCoords"
    by blast
  have "\<forall>f \<in> set (rp_features q). ringed f" if "q \<in> set pathCoords" for q
  proof -
    from list_all2_rhs_memD[OF mapM_Inr[OF pc] that] obtain k where
      k: "k \<in> set pathKeys" "pathPoint ?G k = Inr q" by blast
    then obtain nd where nd: "map_of ?G k = Some nd" and q: "rp_features q = r_features (nd_room nd)"
      by (auto simp: pathPoint_def split: option.splits)
    from graph_features_ringed[OF g nd] q show ?thesis by simp
  qed
  with pc show ?thesis by blast
qed

lemma resolve_fold:
  "foldl (resolveStep startName endName) acc graph = (rs, re) \<Longrightarrow>
   (rs = fst acc \<or> (\<exists>nd. (the rs, nd) \<in> set graph \<and> rs \<noteq> None \<and> toLowerCase (r_name (nd_room nd)) = startName)) \<and>
   (re = snd acc \<or> (\<exists>nd. (the re, nd) \<in> set graph \<and> re \<noteq> None \<and> toLowerCase (r_name (nd_room nd)) = endName))"
proof (induction graph arbitrary: acc)
  case Nil
  then show ?case by auto
next
  case (Cons kn graph)
  let ?acc' = "resolveStep startName endName acc kn"
  from Cons.prems have "foldl (resolveStep startName endName) ?acc' graph = (rs, re)" by simp
  from Cons.IH[OF this] show ?case
    by (cases kn) (auto simp: resolveStep_def Let_def split: if_splits)
qed

lemma resolve_none:
  assumes "\<forall>(k, nd) \<in> set graph. toLowerCase (r_name (nd_room nd)) \<noteq> startName"
  shows "fst (foldl (resolveStep startName endName) (None, None) graph) = None"
proof -
  obtain rs re where r: "foldl (resolveStep startName endName) (None, None) graph = (rs, re)"
    by (cases "foldl (resolveStep startName endName) (None, None) graph") auto
  from resolve_fold[OF r] assms have "rs = None" by auto
  with r show ?thesis by simp
qed

lemma resolve_none_end:
  assumes "\<forall>(k, nd) \<in> set graph. toLowerCase (r_name (nd_room nd)) \<noteq> endName"
  shows "snd (foldl (resolveStep startName endName) (None, None) graph) = None"
proof -
  obtain rs re where r: "foldl (resolveStep startName endName) (None, None) graph = (rs, re)"
    by (cases "foldl (resolveStep startName endName) (None, None) graph") auto
  from resolve_fold[OF r] assms have "re = None" by auto
  with r show ?thesis by simp
qed

lemma resolve_keys:
  assumes "foldl (resolveStep startName endName) (None, None) graph = (Some sk, Some ek)"
  shows "sk \<in> fst ` set graph \<and> ek \<in> fst ` set graph"
  using resolve_fold[OF assms] by force

lemma findRoute_names_missing:
  "toLowerCase (getRoomName startRoom) = [] \<or> toLowerCase (getRoomName endRoom) = [] \<Longrightarrow>
   findRoute rooms startRoom endRoom targetFloor = Some (Inr None)"
  by (simp add: findRoute_def Let_def)

lemma findRoute_throws:
  assumes "toLowerCase (getRoomName startRoom) \<noteq> []" "toLowerCase (getRoomName endRoom) \<noteq> []"
    and "f \<in> set rooms" "\<not> ringed f"
  shows "findRoute rooms startRoom endRoom targetFloor = Some (Inl TypeError)"
  using assms(1,2) groupRoomsByName_throws[OF assms(3,4)]
  by (simp add: findRoute_def Let_def)

lemma findRoute_grouped:
  assumes "toLowerCase (getRoomName startRoom) \<noteq> []" "toLowerCase (getRoomName endRoom) \<noteq> []"
    and "groupRoomsByName rooms = Inr roomGroups"
  shows "findRoute rooms startRoom endRoom targetFloor =
     (case foldl (resolveStep (toLowerCase (getRoomName startRoom)) (toLowerCase (getRoomName endRoom)))
             (None, None) (buildRoomGraph roomGroups targetFloor) of
        (Some startKey, Some endKey) \<Rightarrow>
          if startKey = [] \<or> endKey = [] then Some (Inr None)
          else (case aStar (buildRoomGraph roomGroups targetFloor) startKey endKey of
                  None \<Rightarrow> None
                | Some None \<Rightarrow> Some (Inr None)
                | Some (Some pathKeys) \<Rightarrow>
                    (case mapM (pathPoint (buildRoomGraph roomGroups targetFloor)) pathKeys of
                       Inl e \<Rightarrow> Some (Inl e)
                     | Inr pathCoords \<Rightarrow>
                         (case addCorridorWaypoints pathCoords of
                            Inl e \<Rightarrow> Some (Inl e)
                          | Inr enhancedPath \<Rightarrow> Some (Inr (Some enhancedPath)))))
      | _ \<Rightarrow> Some (Inr None))"
  using assms by (simp add: findRoute_def Let_def)

lemma findRoute_unresolved:
  assumes "groupRoomsByName rooms = Inr roomGroups"
    and "(\<forall>(k, nd) \<in> set (buildRoomGraph roomGroups targetFloor).
            toLowerCase (r_name (nd_room nd)) \<noteq> toLowerCase (getRoomName startRoom)) \<or>
         (\<forall>(k, nd) \<in> set (buildRoomGraph roomGroups targetFloor).
            toLowerCase (r_name (nd_room nd)) \<noteq> toLowerCase (getRoomName endRoom))"
  shows "findRoute rooms startRoom endRoom targetFloor = Some (Inr None)"
proof (cases "toLowerCase (getRoomName startRoom) = [] \<or> toLowerCase (getRoomName endRoom) = []")
  case True
  then show ?thesis by (rule findRoute_names_missing)
next
  case False
  let ?r = "foldl (resolveStep (toLowerCase (getRoomName startRoom)) (toLowerCase (getRoomName endRoom)))
             (None, None) (buildRoomGraph roomGroups targetFloor)"
  obtain rs re where r: "?r = (rs, re)" by (cases ?r) auto
  from assms(2) have "fst ?r = None \<or> snd ?r = None"
  proof
    assume "\<forall>(k, nd) \<in> set (buildRoomGraph roomGroups targetFloor).
            toLowerCase (r_name (nd_room nd)) \<noteq> toLowerCase (getRoomName startRoom)"
    from resolve_none[OF this] show ?thesis by simp
  next
    assume "\<forall>(k, nd) \<in> set (buildRoomGraph roomGroups targetFloor).
            toLowerCase (r_name (nd_room nd)) \<noteq> toLowerCase (getRoomName endRoom)"
    from resolve_none_end[OF this] show ?thesis by simp
  qed
  with r have n: "rs = None \<or> re = None" by simp
  from False have ne: "toLowerCase (getRoomName startRoom) \<noteq> []" "toLowerCase (getRoomName endRoom) \<noteq> []"
    by simp_all
  show ?thesis
    unfolding findRoute_grouped[OF ne assms(1)] r
    using n by (cases rs; cases re) simp_all
qed

lemma findRoute_no_path:
  assumes "groupRoomsByName rooms = Inr roomGroups"
    and "foldl (resolveStep (toLowerCase (getRoomName startRoom)) (toLowerCase (getRoomName endRoom)))
             (None, None) (buildRoomGraph roomGroups targetFloor) = (Some startKey, Some endKey)"
    and "aStar (buildRoomGraph roomGroups targetFloor) startKey endKey = Some None"
  shows "findRoute rooms startRoom endRoom targetFloor = Some (Inr None)"
proof (cases "toLowerCase (getRoomName startRoom) = [] \<or> toLowerCase (getRoomName endRoom) = []")
  case True
  then show ?thesis by (rule findRoute_names_missing)
next
  case False
  then have ne: "toLowerCase (getRoomName startRoom) \<noteq> []" "toLowerCase (getRoomName endRoom) \<noteq> []"
    by simp_all
  show ?thesis
    unfolding findRoute_grouped[OF ne assms(1)] assms(2) by (simp add: assms(3))
qed

lemma findRoute_unreachable:
  assumes "groupRoomsByName rooms = Inr roomGroups"
    and "foldl (resolveStep (toLowerCase (getRoomName startRoom)) (toLowerCase (getRoomName endRoom)))
             (None, None) (buildRoomGraph roomGroups targetFloor) = (Some startKey, Some endKey)"
    and "\<not> (\<exists>q c. walk (buildRoomGraph roomGroups targetFloor) startKey q endKey c)"
  shows "findRoute rooms startRoom endRoom targetFloor = Some (Inr None)"
  using findRoute_no_path[OF assms(1,2) aStar_unreachable[OF assms(3)]] .

lemma findRoute_total:
  assumes wf: "\<forall>f \<in> set rooms. ringed f"
  shows "\<exists>r. findRoute rooms startRoom endRoom targetFloor = Some (Inr r)"
proof (cases "toLowerCase (getRoomName startRoom) = [] \<or> toLowerCase (getRoomName endRoom) = []")
  case True
  then show ?thesis by (simp add: findRoute_names_missing)
next
  case False
  from groupRoomsByName_total[OF wf] obtain roomGroups where g: "groupRoomsByName rooms = Inr roomGroups"
    by blast
  let ?G = "buildRoomGraph roomGroups targetFloor"
  let ?r = "foldl (resolveStep (toLowerCase (getRoomName startRoom)) (toLowerCase (getRoomName endRoom)))
             (None, None) ?G"
  note u = findRoute_grouped[OF _ _ g, of startRoom endRoom targetFloor]
  obtain rs re where r: "?r = (rs, re)" by (cases ?r) auto
  show ?thesis
  proof (cases "\<exists>sk ek. rs = Some sk \<and> re = Some ek")
    case no: False
    with False r show ?thesis by (auto simp: u split: option.splits)
  next
    case True
    then obtain sk ek where k: "rs = Some sk" "re = Some ek" by blast
    show ?thesis
    proof (cases "sk = [] \<or> ek = []")
      case True
      with False r k show ?thesis by (auto simp: u)
    next
      case ne: False
      from aStar_returns_walk[of ?G sk ek] obtain res where
        res: "aStar ?G sk ek = Some res" "\<forall>p. res = Some p \<longrightarrow> (\<exists>c. walk ?G sk p ek c)" by blast
      show ?thesis
      proof (cases res)
        case None
        with False r k ne res(1) show ?thesis by (auto simp: u)
      next
        case (Some p)
        with res(2) obtain c where "walk ?G sk p ek c" by blast
        from walk_nodes[OF this] have "set p \<subseteq> dom (map_of ?G)" .
        from pathPoints_total[OF g this] obtain pathCoords where
          pc: "mapM (pathPoint ?G) p = Inr pathCoords"
          "\<forall>q \<in> set pathCoords. \<forall>f \<in> set (rp_features q). ringed f" by blast
        from addCorridorWaypoints_total[OF pc(2)] obtain out where
          "addCorridorWaypoints pathCoords = Inr out" by blast
        with False r k ne res(1) Some pc(1) show ?thesis by (auto simp: u)
      qed
    qed
  qed
qed

lemma findRoute_returns_or_throws: "\<exists>r. findRoute rooms startRoom endRoom targetFloor = Some r"
proof (cases "\<forall>f \<in> set rooms. ringed f")
  case True
  from findRoute_total[OF this, of startRoom endRoom targetFloor] show ?thesis by blast
next
  case False
  then obtain f where f: "f \<in> set rooms" "\<not> ringed f" by blast
  show ?thesis
  proof (cases "toLowerCase (getRoomName startRoom) = [] \<or> toLowerCase (getRoomName endRoom) = []")
    case True
    then show ?thesis by (simp add: findRoute_names_missing)
  next
    case False
    with findRoute_throws[OF _ _ f, of startRoom endRoom targetFloor] show ?thesis by simp
  qed
qed

text \<open>
  Claim C7. \<^verbatim>\<open>findRoute\<close> always terminates, by returning or by throwing. It returns \<^verbatim>\<open>null\<close>
  when the start or end name is missing or empty, when one of the two names matches no node
  of the constructed graph, and when \<^verbatim>\<open>aStar\<close> returns \<^verbatim>\<open>null\<close> for the resolved keys, which it
  does in particular when the end node is not reachable from the start node. It never throws
  when every feature of the collection has a readable outer ring. But it does throw
  (\<^verbatim>\<open>TypeError\<close>, from \<^verbatim>\<open>getCentroid\<close> inside \<^verbatim>\<open>groupRoomsByName\<close>) whenever both names are
  non-empty and the collection contains a feature whose outer ring cannot be read: a Polygon
  or MultiPolygon with an empty \<^verbatim>\<open>coordinates\<close> array, or a \<^verbatim>\<open>null\<close> geometry. On such inputs the
  claim that every failure is a \<^verbatim>\<open>null\<close> return fails.
\<close>

theorem findRoute_failure_modes:
  "(\<exists>r. findRoute rooms startRoom endRoom targetFloor = Some r) \<and>
   (toLowerCase (getRoomName startRoom) = [] \<or> toLowerCase (getRoomName endRoom) = [] \<longrightarrow>
      findRoute rooms startRoom endRoom targetFloor = Some (Inr None)) \<and>
   (toLowerCase (getRoomName startRoom) \<noteq> [] \<and> toLowerCase (getRoomName endRoom) \<noteq> [] \<and>
    (\<exists>f \<in> set rooms. \<not> ringed f) \<longrightarrow>
      findRoute rooms startRoom endRoom targetFloor = Some (Inl TypeError)) \<and>
   ((\<forall>f \<in> set rooms. ringed f) \<longrightarrow>
      (\<exists>r. findRoute rooms startRoom endRoom targetFloor = Some (Inr r))) \<and>
   (\<forall>roomGroups. groupRoomsByName rooms = Inr roomGroups \<longrightarrow>
      ((\<forall>(k, nd) \<in> set (buildRoomGraph roomGroups targetFloor).
            toLowerCase (r_name (nd_room nd)) \<noteq> toLowerCase (getRoomName startRoom)) \<or>
       (\<forall>(k, nd) \<in> set (buildRoomGraph roomGroups targetFloor).
            toLowerCase (r_name (nd_room nd)) \<noteq> toLowerCase (getRoomName endRoom)) \<longrightarrow>
         findRoute rooms startRoom endRoom targetFloor = Some (Inr None)) \<and>
      (\<forall>startKey endKey.
         foldl (resolveStep (toLowerCase (getRoomName startRoom)) (toLowerCase (getRoomName endRoom)))
           (None, None) (buildRoomGraph roomGroups targetFloor) = (Some startKey, Some endKey) \<and>
         (aStar (buildRoomGraph roomGroups targetFloor) startKey endKey = Some None \<or>
          \<not> (\<exists>q c. walk (buildRoomGraph roomGroups targetFloor) startKey q endKey c)) \<longrightarrow>
           findRoute rooms startRoom endRoom targetFloor = Some (Inr None)))"
proof (intro conjI allI impI)
  show "\<exists>r. findRoute rooms startRoom endRoom targetFloor = Some r"
    by (rule findRoute_returns_or_throws)
next
  assume "toLowerCase (getRoomName startRoom) = [] \<or> toLowerCase (getRoomName endRoom) = []"
  then show "findRoute rooms startRoom endRoom targetFloor = Some (Inr None)"
    by (rule findRoute_names_missing)
next
  assume "toLowerCase (getRoomName startRoom) \<noteq> [] \<and> toLowerCase (getRoomName endRoom) \<noteq> [] \<and>
    (\<exists>f \<in> set rooms. \<not> ringed f)"
  then obtain f where "toLowerCase (getRoomName startRoom) \<noteq> []" "toLowerCase (getRoomName endRoom) \<noteq> []"
    "f \<in> set rooms" "\<not> ringed f" by blast
  then show "findRoute rooms startRoom endRoom targetFloor = Some (Inl TypeError)"
    by (rule findRoute_throws)
next
  assume "\<forall>f \<in> set rooms. ringed f"
  then show "\<exists>r. findRoute rooms startRoom endRoom targetFloor = Some (Inr r)"
    by (rule findRoute_total)
next
  fix roomGroups
  assume "groupRoomsByName rooms = Inr roomGroups"
    and "(\<forall>(k, nd) \<in> set (buildRoomGraph roomGroups targetFloor).
            toLowerCase (r_name (nd_room nd)) \<noteq> toLowerCase (getRoomName startRoom)) \<or>
       (\<forall>(k, nd) \<in> set (buildRoomGraph roomGroups targetFloor).
            toLowerCase (r_name (nd_room nd)) \<noteq> toLowerCase (getRoomName endRoom))"
  then show "findRoute rooms startRoom endRoom targetFloor = Some (Inr None)"
    by (rule findRoute_unresolved)
next
  fix roomGroups startKey endKey
  assume g: "groupRoomsByName rooms = Inr roomGroups"
    and h: "foldl (resolveStep (toLowerCase (getRoomName startRoom)) (toLowerCase (getRoomName endRoom)))
           (None, None) (buildRoomGraph roomGroups targetFloor) = (Some startKey, Some endKey) \<and>
         (aStar (buildRoomGraph roomGroups targetFloor) startKey endKey = Some None \<or>
          \<not> (\<exists>q c. walk (buildRoomGraph roomGroups targetFloor) startKey q endKey c))"
  then have r: "foldl (resolveStep (toLowerCase (getRoomName startRoom)) (toLowerCase (getRoomName endRoom)))
           (None, None) (buildRoomGraph roomGroups targetFloor) = (Some startKey, Some endKey)"
    by simp
  from h have "aStar (buildRoomGraph roomGroups targetFloor) startKey endKey = Some None"
    using aStar_unreachable by blast
  from findRoute_no_path[OF g r this]
  show "findRoute rooms startRoom endRoom targetFloor = Some (Inr None)" .
qed

lemma exEmptyPolygon_names:
  "toLowerCase (getRoomName (exEmptyPolygon ! 0)) = ''a''"
  "toLowerCase (getRoomName (exEmptyPolygon ! 1)) = ''b''"
  by code_simp+

text \<open>
  A request between rooms A and B where the only feature of A is a Polygon with
  \<^verbatim>\<open>coordinates: []\<close>: \<^verbatim>\<open>findRoute\<close> throws.
\<close>

theorem findRoute_failure_modes_witness:
  "toLowerCase (getRoomName (exEmptyPolygon ! 0)) = ''a'' \<and>
   toLowerCase (getRoomName (exEmptyPolygon ! 1)) = ''b'' \<and>
   outerRing (geometry (exEmptyPolygon ! 0)) = Inl TypeError \<and>
   findRoute exEmptyPolygon (exEmptyPolygon ! 0) (exEmptyPolygon ! 1) None = Some (Inl TypeError)"
proof -
  have r: "outerRing (geometry (exEmptyPolygon ! 0)) = Inl TypeError"
    by (simp add: exEmptyPolygon_def mkFeature_def)
  then have "\<not> ringed (exEmptyPolygon ! 0)" by (simp add: ringed_def)
  moreover have "exEmptyPolygon ! 0 \<in> set exEmptyPolygon" by (simp add: exEmptyPolygon_def)
  ultimately have "\<exists>f \<in> set exEmptyPolygon. \<not> ringed f" by blast
  with findRoute_failure_modes[of exEmptyPolygon "exEmptyPolygon ! 0" "exEmptyPolygon ! 1" None]
    exEmptyPolygon_names
  have "findRoute exEmptyPolygon (exEmptyPolygon ! 0) (exEmptyPolygon ! 1) None = Some (Inl TypeError)"
    by simp
  with r exEmptyPolygon_names show ?thesis by simp
qed

lemma exStacked_request:
  "toLowerCase (getRoomName (exStacked ! 0)) = ''room101''"
  "toLowerCase (getRoomName (exStacked ! 2)) = ''room201''"
  by code_simp+

lemma exStacked_resolve:
  "foldl (resolveStep ''room101'' ''room201'') (None, None) exStackedGraph =
     (Some ''Room101_F1'', Some ''Room201_F2'')"
  by (simp add: exStackedGraph_def resolveStep_def exRoom101_def exStairs_def exRoom201_def
      mkRoom_def exStacked_names)

text \<open>
  The same request through \<^verbatim>\<open>findRoute\<close>: from Room101 to Room201 it answers \<^verbatim>\<open>null\<close>, although
  the graph it built connects them through the stairs.
\<close>

lemma exStacked_findRoute:
  "findRoute exStacked (exStacked ! 0) (exStacked ! 2) None = Some (Inr None)"
proof -
  have c: "nd_centroid (snd (exStackedGraph ! 0)) = nd_centroid (snd (exStackedGraph ! 2))"
    by (simp add: exStackedGraph_def)
  have a: "aStar (buildRoomGraph exStackedGroups None) ''Room101_F1'' ''Room201_F2'' = Some None"
    unfolding exStacked_graph by (rule aStar_coincident[OF exStacked_lookup(1) exStacked_lookup(3) c])
  have r: "foldl (resolveStep (toLowerCase (getRoomName (exStacked ! 0))) (toLowerCase (getRoomName (exStacked ! 2))))
             (None, None) (buildRoomGraph exStackedGroups None) = (Some ''Room101_F1'', Some ''Room201_F2'')"
    unfolding exStacked_graph exStacked_request by (rule exStacked_resolve)
  from findRoute_no_path[OF exStacked_groups r a] show ?thesis .
qed

end
